theory Spec2Isabelle
  imports Main "HOL-Library.Word"
begin

section \<open>JavaScript strings\<close>

text \<open>
  A JavaScript string is a sequence of 16-bit code units. The parser of
  \<^verbatim>\<open>src/bin/parse.js\<close> only ever looks at single code units (its regular
  expressions carry no \<^verbatim>\<open>u\<close> flag), so a string is modelled as a list of
  16-bit words. \<open>js\<close> embeds an ASCII literal.
\<close>

type_synonym cu = "16 word"
type_synonym jsstring = "cu list"

definition js :: "string \<Rightarrow> jsstring" where
  "js s = map of_char s"

text \<open>
  ECMAScript \<^emph>\<open>LineTerminator\<close>: LF, CR, U+2028, U+2029. These are the code units
  that \<^verbatim>\<open>.\<close> refuses and next to which \<^verbatim>\<open>^\<close> and \<^verbatim>\<open>$\<close> hold in multiline mode.
\<close>

definition isLineTerminator :: "cu \<Rightarrow> bool" where
  "isLineTerminator c = (c = 0x000A \<or> c = 0x000D \<or> c = 0x2028 \<or> c = 0x2029)"

text \<open>
  ECMAScript \<^emph>\<open>WhiteSpace\<close> together with \<^emph>\<open>LineTerminator\<close>: the code units that
  \<^verbatim>\<open>\s\<close> matches and that \<^verbatim>\<open>String.prototype.trim\<close> strips.
\<close>

definition isWhiteSpace :: "cu \<Rightarrow> bool" where
  "isWhiteSpace c =
     (c = 0x0009 \<or> c = 0x000A \<or> c = 0x000B \<or> c = 0x000C \<or> c = 0x000D \<or> c = 0x0020 \<or>
      c = 0x00A0 \<or> c = 0x1680 \<or> (0x2000 \<le> c \<and> c \<le> 0x200A) \<or>
      c = 0x2028 \<or> c = 0x2029 \<or> c = 0x202F \<or> c = 0x205F \<or> c = 0x3000 \<or> c = 0xFEFF)"

text \<open>\<^verbatim>\<open>s.trim()\<close>\<close>

definition trim :: "jsstring \<Rightarrow> jsstring" where
  "trim s = rev (dropWhile isWhiteSpace (rev (dropWhile isWhiteSpace s)))"

text \<open>
  \<^verbatim>\<open>s.split(d)\<close> for a separator \<open>d\<close> of one code unit; \<open>seg\<close> is the piece
  collected since the last separator. The empty string splits into one empty piece.
\<close>

primrec splitAcc :: "cu \<Rightarrow> jsstring \<Rightarrow> jsstring \<Rightarrow> jsstring list" where
  "splitAcc d [] seg = [seg]"
| "splitAcc d (c # cs) seg =
     (if c = d then seg # splitAcc d cs [] else splitAcc d cs (seg @ [c]))"

definition newline :: cu where
  "newline = 0x000A"

definition splitLines :: "jsstring \<Rightarrow> jsstring list" where
  "splitLines s = splitAcc newline s []"

text \<open>\<^verbatim>\<open>xs.join('\n')\<close>\<close>

fun joinLines :: "jsstring list \<Rightarrow> jsstring" where
  "joinLines [] = []"
| "joinLines [x] = x"
| "joinLines (x # y # ys) = x @ newline # joinLines (y # ys)"

text \<open>\<^verbatim>\<open>s.startsWith(p)\<close>\<close>

definition startsWith :: "jsstring \<Rightarrow> jsstring \<Rightarrow> bool" where
  "startsWith s p = (take (length p) s = p)"

section \<open>Regular expressions\<close>

text \<open>
  The seven regular expressions of the parser are sequences of: the assertions
  \<^verbatim>\<open>^\<close> and \<^verbatim>\<open>$\<close>, one code unit of a class, a greedy repetition of a class
  (\<^verbatim>\<open>+\<close>, \<^verbatim>\<open>*\<close>, \<^verbatim>\<open>{1,2}\<close>), and a capturing group around such a repetition.
  The matcher below is the backtracking matcher of ECMAScript restricted to these forms.
\<close>

datatype cclass =
    Lit cu             \<comment> \<open>a literal code unit\<close>
  | Space              \<comment> \<open>\<^verbatim>\<open>\s\<close>\<close>
  | Dot                \<comment> \<open>\<^verbatim>\<open>.\<close>\<close>
  | AnyOf "cu list"    \<comment> \<open>\<^verbatim>\<open>[...]\<close>\<close>
  | NoneOf "cu list"   \<comment> \<open>\<^verbatim>\<open>[^...]\<close>\<close>

fun cmatch :: "cclass \<Rightarrow> cu \<Rightarrow> bool" where
  "cmatch (Lit d) c = (c = d)"
| "cmatch Space c = isWhiteSpace c"
| "cmatch Dot c = (\<not> isLineTerminator c)"
| "cmatch (AnyOf ds) c = (c \<in> set ds)"
| "cmatch (NoneOf ds) c = (c \<notin> set ds)"

datatype atom =
    Bol                           \<comment> \<open>\<^verbatim>\<open>^\<close>\<close>
  | Eol                           \<comment> \<open>\<^verbatim>\<open>$\<close>\<close>
  | One cclass                    \<comment> \<open>one code unit of the class\<close>
  | Rep cclass nat "nat option"   \<comment> \<open>greedy repetition, at least and at most\<close>
  | Grp cclass nat "nat option"   \<comment> \<open>the same inside a capturing group\<close>

text \<open>
  \<open>tryDown f n lo\<close> tries the repetition counts \<open>n\<close>, \<open>n - 1\<close>, \dots, \<open>lo\<close> in this
  order (greedy, giving back one code unit at a time) and returns the first success.
\<close>

primrec tryDown :: "(nat \<Rightarrow> 'a option) \<Rightarrow> nat \<Rightarrow> nat \<Rightarrow> 'a option" where
  "tryDown f 0 lo = (if lo = 0 then f 0 else None)"
| "tryDown f (Suc n) lo =
     (if Suc n < lo then None
      else (case f (Suc n) of Some r \<Rightarrow> Some r | None \<Rightarrow> tryDown f n lo))"

text \<open>The longest run of class members at the head of \<open>s\<close>, capped by the upper bound.\<close>

definition runLen :: "cclass \<Rightarrow> nat option \<Rightarrow> jsstring \<Rightarrow> nat" where
  "runLen cl hi s =
     (let l = length (takeWhile (cmatch cl) s)
      in case hi of None \<Rightarrow> l | Some h \<Rightarrow> min h l)"

text \<open>The code unit before the position reached after consuming \<open>k\<close> units of \<open>s\<close>.\<close>

definition prevAt :: "cu option \<Rightarrow> jsstring \<Rightarrow> nat \<Rightarrow> cu option" where
  "prevAt p s k = (case rev (take k s) of [] \<Rightarrow> p | c # _ \<Rightarrow> Some c)"

text \<open>
  \<open>rmatch re m p s\<close> matches \<open>re\<close> at one position: \<open>s\<close> is the input from the
  position on, \<open>p\<close> the code unit before it (\<open>None\<close> at the start of the input), \<open>m\<close>
  the multiline flag. The result is the number of code units matched and the captures.
\<close>

primrec rmatch :: "atom list \<Rightarrow> bool \<Rightarrow> cu option \<Rightarrow> jsstring \<Rightarrow> (nat \<times> jsstring list) option" where
  "rmatch [] m p s = Some (0, [])"
| "rmatch (a # as) m p s =
     (case a of
        Bol \<Rightarrow>
          if (case p of None \<Rightarrow> True | Some c \<Rightarrow> m \<and> isLineTerminator c)
          then rmatch as m p s else None
      | Eol \<Rightarrow>
          if (case s of [] \<Rightarrow> True | c # _ \<Rightarrow> m \<and> isLineTerminator c)
          then rmatch as m p s else None
      | One cl \<Rightarrow>
          (case s of
             [] \<Rightarrow> None
           | c # cs \<Rightarrow>
               if cmatch cl c
               then map_option (\<lambda>(n, caps). (Suc n, caps)) (rmatch as m (Some c) cs)
               else None)
      | Rep cl lo hi \<Rightarrow>
          tryDown
            (\<lambda>k. map_option (\<lambda>(n, caps). (k + n, caps))
                   (rmatch as m (prevAt p s k) (drop k s)))
            (runLen cl hi s) lo
      | Grp cl lo hi \<Rightarrow>
          tryDown
            (\<lambda>k. map_option (\<lambda>(n, caps). (k + n, take k s # caps))
                   (rmatch as m (prevAt p s k) (drop k s)))
            (runLen cl hi s) lo)"

text \<open>
  \<^verbatim>\<open>re.exec(s)\<close> without the global flag: the first position, from the left, where
  the expression matches. The result is the index, the length of the match and the captures.
\<close>

primrec searchFrom :: "atom list \<Rightarrow> bool \<Rightarrow> cu option \<Rightarrow> nat \<Rightarrow> jsstring \<Rightarrow> (nat \<times> nat \<times> jsstring list) option" where
  "searchFrom re m p i [] =
     (case rmatch re m p [] of None \<Rightarrow> None | Some (n, caps) \<Rightarrow> Some (i, n, caps))"
| "searchFrom re m p i (c # cs) =
     (case rmatch re m p (c # cs) of
        None \<Rightarrow> searchFrom re m (Some c) (Suc i) cs
      | Some (n, caps) \<Rightarrow> Some (i, n, caps))"

definition rexec :: "atom list \<Rightarrow> bool \<Rightarrow> jsstring \<Rightarrow> (nat \<times> nat \<times> jsstring list) option" where
  "rexec re m s = searchFrom re m None 0 s"

text \<open>
  \<^verbatim>\<open>s.match(re)\<close>: \<^verbatim>\<open>null\<close> or the array whose element 0 is the matched text and
  whose element \<open>k\<close> is the \<open>k\<close>-th capture.
\<close>

definition match :: "jsstring \<Rightarrow> atom list \<Rightarrow> bool \<Rightarrow> jsstring list option" where
  "match s re m =
     (case rexec re m s of
        None \<Rightarrow> None
      | Some (i, n, caps) \<Rightarrow> Some (take n (drop i s) # caps))"

text \<open>\<^verbatim>\<open>s.replace(re, '')\<close>: the first match is cut out.\<close>

definition replaceEmpty :: "jsstring \<Rightarrow> atom list \<Rightarrow> bool \<Rightarrow> jsstring" where
  "replaceEmpty s re m =
     (case rexec re m s of
        None \<Rightarrow> s
      | Some (i, n, caps) \<Rightarrow> take i s @ drop (i + n) s)"

text \<open>
  \<^verbatim>\<open>s.split(re)\<close>, the loop of \<^verbatim>\<open>RegExp.prototype[Symbol.split]\<close>: \<open>rest\<close> is the
  input from the scan position \<open>q\<close> on, \<open>seg\<close> the text between the end \<open>p\<close> of the
  last separator and \<open>q\<close>. A match that is empty and sits at \<open>p\<close> is skipped; any other
  match closes the segment and pushes the captures.
\<close>

function splitLoop :: "atom list \<Rightarrow> bool \<Rightarrow> cu option \<Rightarrow> jsstring \<Rightarrow> jsstring \<Rightarrow> jsstring list" where
  "splitLoop re m p rest seg =
     (case rest of
        [] \<Rightarrow> [seg]
      | c # cs \<Rightarrow>
          (case rmatch re m p rest of
             None \<Rightarrow> splitLoop re m (Some c) cs (seg @ [c])
           | Some (n, caps) \<Rightarrow>
               if n = 0 \<and> seg = [] then splitLoop re m (Some c) cs (seg @ [c])
               else seg # caps @ splitLoop re m (prevAt p rest n) (drop n rest) []))"
  by pat_completeness auto
termination
  by (relation "measure (\<lambda>(re, m, p, rest, seg). 2 * length rest + (if seg = [] then 0 else 1))")
     auto

declare splitLoop.simps [simp del]

definition splitRe :: "jsstring \<Rightarrow> atom list \<Rightarrow> bool \<Rightarrow> jsstring list" where
  "splitRe s re m =
     (if s = [] then (case rmatch re m None [] of None \<Rightarrow> [[]] | Some r \<Rightarrow> [])
      else splitLoop re m None s [])"

section \<open>The regular expressions of the parser\<close>

definition hash :: cu where "hash = of_char CHR ''#''"
definition hyphen :: cu where "hyphen = of_char CHR ''-''"
definition star :: cu where "star = of_char CHR ''*''"
definition bang :: cu where "bang = of_char CHR ''!''"
definition lbrack :: cu where "lbrack = of_char CHR ''[''"
definition rbrack :: cu where "rbrack = of_char CHR '']''"
definition lparen :: cu where "lparen = of_char CHR ''(''"
definition rparen :: cu where "rparen = of_char CHR '')''"
definition backtick :: cu where "backtick = of_char CHR 0x60"

text \<open>\<^verbatim>\<open>/^---$/m\<close> (line 75; used with the multiline flag)\<close>

definition separatorRe :: "atom list" where
  "separatorRe = [Bol, One (Lit hyphen), One (Lit hyphen), One (Lit hyphen), Eol]"

text \<open>\<^verbatim>\<open>/^#\s+(.+)$/\<close> (line 83 with the multiline flag, line 124 without)\<close>

definition titleRe :: "atom list" where
  "titleRe = [Bol, One (Lit hash), Rep Space 1 None, Grp Dot 1 None, Eol]"

text \<open>\<^verbatim>\<open>/^##\s+(.+)$/m\<close> (line 84)\<close>

definition subtitleRe :: "atom list" where
  "subtitleRe = [Bol, One (Lit hash), One (Lit hash), Rep Space 1 None, Grp Dot 1 None, Eol]"

text \<open>\<^verbatim>\<open>/^#{1,2}\s+/\<close> (line 96)\<close>

definition headingRe :: "atom list" where
  "headingRe = [Bol, Rep (Lit hash) 1 (Some 2), Rep Space 1 None]"

text \<open>\<^verbatim>\<open>/^#\s+/\<close> (line 125)\<close>

definition titlePrefixRe :: "atom list" where
  "titlePrefixRe = [Bol, One (Lit hash), Rep Space 1 None]"

text \<open>\<^verbatim>\<open>/^!\[([^\]]*)\]\(([^)]+)\)$/\<close> (line 157)\<close>

definition imageRe :: "atom list" where
  "imageRe =
     [Bol, One (Lit bang), One (Lit lbrack), Grp (NoneOf [rbrack]) 0 None, One (Lit rbrack),
      One (Lit lparen), Grp (NoneOf [rparen]) 1 None, One (Lit rparen), Eol]"

text \<open>\<^verbatim>\<open>/^(\s*)[-*]\s+(.+)$/\<close> (line 176)\<close>

definition bulletRe :: "atom list" where
  "bulletRe =
     [Bol, Grp Space 0 None, One (AnyOf [hyphen, star]), Rep Space 1 None, Grp Dot 1 None, Eol]"

text \<open>The fence \<^verbatim>\<open>```\<close> of lines 189 and 200.\<close>

definition fence :: jsstring where
  "fence = [backtick, backtick, backtick]"

section \<open>The document\<close>

text \<open>
  The objects that \<^verbatim>\<open>parseSlideBlock\<close> pushes to \<^verbatim>\<open>slide.content\<close>, by their
  \<^verbatim>\<open>type\<close> tag: \<^verbatim>\<open>'bullets'\<close> (\<open>BulletList\<close>), \<^verbatim>\<open>'image'\<close> (\<open>ImageBlock\<close>),
  \<^verbatim>\<open>'code'\<close> (\<open>CodeBlock\<close>) and \<^verbatim>\<open>'text'\<close> (\<open>Paragraph\<close>). Numbers are integers.
  The slide object of line 114 and the result object of line 64 are records; the nested
  \<^verbatim>\<open>timing.default\<close> is the field \<open>timing_default\<close>. An unset title is the empty
  string the objects are created with.
\<close>

datatype bulletItem = BulletItem (item_text: jsstring) (level: int)

datatype contentBlock =
    BulletList (items: "bulletItem list")
  | ImageBlock (alt: jsstring) (src: jsstring)
  | CodeBlock (language: jsstring) (code: jsstring)
  | Paragraph (paragraph_text: jsstring)

record slide =
  slide_title :: jsstring
  content :: "contentBlock list"

record document =
  title :: jsstring
  subtitle :: jsstring
  theme :: jsstring
  timing_default :: int
  slides :: "slide list"

section \<open>Errors\<close>

text \<open>
  The parser has no \<^verbatim>\<open>throw\<close>. What can raise is a read that yields
  \<^verbatim>\<open>undefined\<close> and is then used: an array element past the end
  (\<^verbatim>\<open>lines[i].trim()\<close>) or a capture that does not exist (\<^verbatim>\<open>titleMatch[1].trim()\<close>).
  \<open>at xs i\<close> is the read \<^verbatim>\<open>xs[i]\<close>, with \<^verbatim>\<open>undefined\<close> as the error. (The captures
  of an image line are stored, not dereferenced; an \<^verbatim>\<open>undefined\<close> one would leave a
  block without its field, which the model counts as the same error.)
\<close>

datatype error = TypeError

definition at :: "'a list \<Rightarrow> nat \<Rightarrow> error + 'a" where
  "at xs i = (if i < length xs then Inr (xs ! i) else Inl TypeError)"

section \<open>parseSlideBlock\<close>

text \<open>
  The statement repeated at lines 145, 159, 190, 214 and 229: a non-empty
  \<^verbatim>\<open>currentBullets\<close> is pushed as one block (and \<^verbatim>\<open>currentBullets\<close> becomes empty,
  which every call site below writes out).
\<close>

definition flush :: "bulletItem list \<Rightarrow> contentBlock list \<Rightarrow> contentBlock list" where
  "flush currentBullets slideContent =
     (if length currentBullets > 0 then slideContent @ [BulletList currentBullets] else slideContent)"

text \<open>
  The first loop (lines 122 to 133): the result is \<^verbatim>\<open>slide.title\<close> and the index
  \<^verbatim>\<open>i\<close> at which the loop was left.
\<close>

function titleLoop :: "jsstring list \<Rightarrow> nat \<Rightarrow> error + (jsstring \<times> nat)" where
  "titleLoop lines i =
     (if i < length lines then
        (case at lines i of
           Inl e \<Rightarrow> Inl e
         | Inr l \<Rightarrow>
             let line = trim l in
             (case match line titleRe False of
                Some r \<Rightarrow> Inr (trim (replaceEmpty line titlePrefixRe False), i + 1)
              | None \<Rightarrow> if line \<noteq> [] then Inr ([], i) else titleLoop lines (i + 1)))
      else Inr ([], i))"
  by pat_completeness auto
termination
  by (relation "measure (\<lambda>(lines, i). length lines - i)") auto

declare titleLoop.simps [simp del]

text \<open>
  The inner loop of a fenced block (lines 200 to 203): the result is
  \<^verbatim>\<open>codeLines\<close> and the index of the closing fence, or \<^verbatim>\<open>lines.length\<close>.
\<close>

function codeLoop :: "jsstring list \<Rightarrow> nat \<Rightarrow> jsstring list \<Rightarrow> error + (jsstring list \<times> nat)" where
  "codeLoop lines i codeLines =
     (if i < length lines then
        (case at lines i of
           Inl e \<Rightarrow> Inl e
         | Inr l \<Rightarrow>
             if \<not> startsWith (trim l) fence then codeLoop lines (i + 1) (codeLines @ [l])
             else Inr (codeLines, i))
      else Inr (codeLines, i))"
  by pat_completeness auto
termination
  by (relation "measure (\<lambda>(lines, i, codeLines). length lines - i)") auto

declare codeLoop.simps [simp del]

lemma codeLoop_index:
  "codeLoop lines i codeLines = Inr (cl, j) \<Longrightarrow> i \<le> j"
proof (induction lines i codeLines rule: codeLoop.induct)
  case (1 lines i codeLines)
  show ?case
  proof (cases "i < length lines \<and> \<not> startsWith (trim (lines ! i)) fence")
    case True
    with "1.prems" have "codeLoop lines (i + 1) (codeLines @ [lines ! i]) = Inr (cl, j)"
      by (subst (asm) codeLoop.simps) (simp add: at_def)
    with True "1.IH" [of "lines ! i"] have "i + 1 \<le> j"
      by (simp add: at_def)
    then show ?thesis by simp
  next
    case False
    with "1.prems" show ?thesis
      by (subst (asm) codeLoop.simps) (auto simp: at_def split: if_splits)
  qed
qed

text \<open>
  The second loop (lines 138 to 226): the result is \<^verbatim>\<open>slide.content\<close> and
  \<^verbatim>\<open>currentBullets\<close> when the loop is left.
\<close>

function contentLoop :: "jsstring list \<Rightarrow> nat \<Rightarrow> bulletItem list \<Rightarrow> contentBlock list \<Rightarrow> error + (contentBlock list \<times> bulletItem list)" where
  "contentLoop lines i currentBullets slideContent =
     (if i < length lines then
        (case at lines i of
           Inl e \<Rightarrow> Inl e
         | Inr line \<Rightarrow>
             let trimmed = trim line in
             if trimmed = [] then contentLoop lines (i + 1) [] (flush currentBullets slideContent)
             else
               (case match trimmed imageRe False of
                  Some imageMatch \<Rightarrow>
                    (case at imageMatch 1 of
                       Inl e \<Rightarrow> Inl e
                     | Inr a \<Rightarrow>
                         (case at imageMatch 2 of
                            Inl e \<Rightarrow> Inl e
                          | Inr s \<Rightarrow>
                              contentLoop lines (i + 1) []
                                (flush currentBullets slideContent @ [ImageBlock a s])))
                | None \<Rightarrow>
                    (case match line bulletRe False of
                       Some bulletMatch \<Rightarrow>
                         (case at bulletMatch 1 of
                            Inl e \<Rightarrow> Inl e
                          | Inr ind \<Rightarrow>
                              (case at bulletMatch 2 of
                                 Inl e \<Rightarrow> Inl e
                               | Inr t \<Rightarrow>
                                   let indent = int (length ind); text = trim t in
                                   contentLoop lines (i + 1)
                                     (currentBullets @ [BulletItem text (indent div 2)])
                                     slideContent))
                     | None \<Rightarrow>
                         if startsWith trimmed fence then
                           let lang = trim (drop 3 trimmed) in
                           (case codeLoop lines (i + 1) [] of
                              Inl e \<Rightarrow> Inl e
                            | Inr (codeLines, j) \<Rightarrow>
                                contentLoop lines (j + 1) []
                                  (flush currentBullets slideContent @
                                   [CodeBlock (if lang \<noteq> [] then lang else js ''text'')
                                      (joinLines codeLines)]))
                         else
                           contentLoop lines (i + 1) []
                             (flush currentBullets slideContent @ [Paragraph trimmed]))))
      else Inr (slideContent, currentBullets))"
  by pat_completeness auto
termination
  by (relation "measure (\<lambda>(lines, i, currentBullets, slideContent). length lines - i)")
     (auto dest: codeLoop_index)

declare contentLoop.simps [simp del]

definition parseSlideBlock :: "jsstring \<Rightarrow> error + slide" where
  "parseSlideBlock block =
     (let lines = splitLines block in
      case titleLoop lines 0 of
        Inl e \<Rightarrow> Inl e
      | Inr (t, i) \<Rightarrow>
          (case contentLoop lines i [] [] of
             Inl e \<Rightarrow> Inl e
           | Inr (slideContent, currentBullets) \<Rightarrow>
               Inr \<lparr>slide_title = t, content = flush currentBullets slideContent\<rparr>))"

section \<open>parseOutline\<close>

text \<open>The loop of lines 102 to 107; a slide object is always truthy, so each one is pushed.\<close>

primrec slideLoop :: "jsstring list \<Rightarrow> slide list \<Rightarrow> error + slide list" where
  "slideLoop [] resultSlides = Inr resultSlides"
| "slideLoop (block # rest) resultSlides =
     (case parseSlideBlock block of
        Inl e \<Rightarrow> Inl e
      | Inr slide \<Rightarrow> slideLoop rest (resultSlides @ [slide]))"

text \<open>
  Line 75: the text is split at the separators, each segment is trimmed, and the
  segments that are then empty are dropped (\<^verbatim>\<open>filter(Boolean)\<close>).
\<close>

definition blocksOf :: "jsstring \<Rightarrow> jsstring list" where
  "blocksOf text = filter (\<lambda>b. b \<noteq> []) (map trim (splitRe text separatorRe True))"

text \<open>Lines 94 to 97.\<close>

definition isTitleOnly :: "jsstring \<Rightarrow> bool" where
  "isTitleOnly firstBlock =
     (let firstBlockLines = filter (\<lambda>l. trim l \<noteq> []) (splitLines firstBlock)
      in list_all (\<lambda>line. match line headingRe False \<noteq> None \<or> trim line = [])
           firstBlockLines)"

text \<open>
  Lines 62 to 110. (The \<^verbatim>\<open>lines\<close> of line 63 are never read.)
\<close>

definition parseOutline :: "jsstring \<Rightarrow> error + document" where
  "parseOutline text =
     (let result = \<lparr>title = [], subtitle = [], theme = js ''minimal'', timing_default = 5,
                     slides = []\<rparr>;
          blocks = blocksOf text
      in
      if length blocks = 0 then Inr result
      else
        (case at blocks 0 of
           Inl e \<Rightarrow> Inl e
         | Inr firstBlock \<Rightarrow>
             let titleMatch = match firstBlock titleRe True;
                 subtitleMatch = match firstBlock subtitleRe True
             in
             (case (case titleMatch of
                      None \<Rightarrow> Inr result
                    | Some tm \<Rightarrow>
                        (case at tm 1 of
                           Inl e \<Rightarrow> Inl e
                         | Inr g \<Rightarrow> Inr (result\<lparr>title := trim g\<rparr>))) of
                Inl e \<Rightarrow> Inl e
              | Inr result \<Rightarrow>
                  (case (case subtitleMatch of
                           None \<Rightarrow> Inr result
                         | Some sm \<Rightarrow>
                             (case at sm 1 of
                                Inl e \<Rightarrow> Inl e
                              | Inr g \<Rightarrow> Inr (result\<lparr>subtitle := trim g\<rparr>))) of
                     Inl e \<Rightarrow> Inl e
                   | Inr result \<Rightarrow>
                       let slideBlocks =
                             (if isTitleOnly firstBlock then drop 1 blocks else blocks)
                       in
                       (case slideLoop slideBlocks (slides result) of
                          Inl e \<Rightarrow> Inl e
                        | Inr resultSlides \<Rightarrow> Inr (result\<lparr>slides := resultSlides\<rparr>))))))"

section \<open>Notions used in the statements\<close>

text \<open>The number of capturing groups of an expression.\<close>

fun isGrp :: "atom \<Rightarrow> bool" where
  "isGrp (Grp cl lo hi) = True"
| "isGrp a = False"

definition groups :: "atom list \<Rightarrow> nat" where
  "groups re = length (filter isGrp re)"

text \<open>
  The invariants of the data model: a bullet list has at least one item and no item has a
  negative level, a paragraph is not empty, a code block has a language.
\<close>

fun validBlock :: "contentBlock \<Rightarrow> bool" where
  "validBlock (BulletList its) = (its \<noteq> [] \<and> list_all (\<lambda>it. 0 \<le> level it) its)"
| "validBlock (ImageBlock a s) = True"
| "validBlock (CodeBlock lang body) = (lang \<noteq> [])"
| "validBlock (Paragraph t) = (t \<noteq> [])"

definition validSlide :: "slide \<Rightarrow> bool" where
  "validSlide s = list_all validBlock (content s)"

definition validDocument :: "document \<Rightarrow> bool" where
  "validDocument d = list_all validSlide (slides d)"


text \<open>
  The item that lines 178 to 183 push for a line that matches the bullet expression
  (for any other line the value is of no interest).
\<close>

definition bulletOf :: "jsstring \<Rightarrow> bulletItem" where
  "bulletOf line =
     (case match line bulletRe False of
        None \<Rightarrow> BulletItem [] 0
      | Some bm \<Rightarrow> BulletItem (trim (bm ! 2)) (int (length (bm ! 1)) div 2))"

text \<open>The test of lines 189 and 200: the trimmed line starts with the fence.\<close>

definition isFence :: "jsstring \<Rightarrow> bool" where
  "isFence line = startsWith (trim line) fence"

text \<open>
  Outlines given by their lines: \<open>separator\<close> is the line \<^verbatim>\<open>---\<close>, \<open>sepJoin\<close> puts
  one separator line between consecutive groups of lines, and \<open>noSeparator\<close> says that
  the separator expression finds no match in a line.
\<close>

definition separator :: jsstring where
  "separator = [hyphen, hyphen, hyphen]"

fun sepJoin :: "jsstring list list \<Rightarrow> jsstring list" where
  "sepJoin [] = []"
| "sepJoin [s] = s"
| "sepJoin (s # t # ts) = s @ separator # sepJoin (t # ts)"

definition noSeparator :: "jsstring \<Rightarrow> bool" where
  "noSeparator l = (rexec separatorRe True l = None)"

text \<open>Where \<^verbatim>\<open>^\<close> and \<^verbatim>\<open>$\<close> hold in multiline mode.\<close>

definition atLineStart :: "cu option \<Rightarrow> bool" where
  "atLineStart p = (case p of None \<Rightarrow> True | Some c \<Rightarrow> isLineTerminator c)"

definition atLineEnd :: "jsstring \<Rightarrow> bool" where
  "atLineEnd s = (case s of [] \<Rightarrow> True | c # _ \<Rightarrow> isLineTerminator c)"

text \<open>
  The segments of an outline read line by line: a separator line closes the segment, any
  other line is added to it with its newline.
\<close>

fun segLines :: "jsstring list \<Rightarrow> jsstring \<Rightarrow> jsstring list" where
  "segLines [] seg = [seg]"
| "segLines [l] seg = (if l = separator then [seg, []] else [seg @ l])"
| "segLines (l # l' # ls) seg =
     (if l = separator then seg # segLines (l' # ls) [newline]
      else segLines (l' # ls) (seg @ l @ [newline]))"

text \<open>The title that line 125 stores for a line matching the title expression.\<close>

definition slideTitleOf :: "jsstring \<Rightarrow> jsstring" where
  "slideTitleOf l = trim (replaceEmpty (trim l) titlePrefixRe False)"

text \<open>
  A segment given by its lines, and the lines of the block that line 75 makes of it:
  \<open>trimStart\<close> and \<open>trimEnd\<close> are the two halves of \<open>trim\<close>, \<open>coreLines\<close> are
  the lines of the segment without the blank lines at its start and at its end, and
  \<open>blockLines\<close> are these lines with the first one trimmed at its start and the last one
  at its end.
\<close>

definition trimStart :: "jsstring \<Rightarrow> jsstring" where
  "trimStart s = dropWhile isWhiteSpace s"




text \<open>
  What lines 83 to 91 store in \<^verbatim>\<open>result.title\<close> and \<^verbatim>\<open>result.subtitle\<close>: the
  trimmed capture of the first match in the first block, or the initial empty string.
\<close>

definition headingText :: "jsstring \<Rightarrow> atom list \<Rightarrow> jsstring" where
  "headingText firstBlock re =
     (case match firstBlock re True of None \<Rightarrow> [] | Some tm \<Rightarrow> trim (tm ! 1))"

section \<open>Properties of the matcher\<close>

lemma tryDown_Some:
  "tryDown f n lo = Some r \<Longrightarrow>
   \<exists>k. lo \<le> k \<and> k \<le> n \<and> f k = Some r \<and> (\<forall>j. k < j \<and> j \<le> n \<longrightarrow> f j = None)"
proof (induction n)
  case 0
  then show ?case by (auto split: if_splits)
next
  case (Suc n)
  show ?case
  proof (cases "f (Suc n)")
    case None
    with Suc.prems have "tryDown f n lo = Some r" by (auto split: if_splits)
    from Suc.IH [OF this] obtain k where
      k: "lo \<le> k" "k \<le> n" "f k = Some r" "\<forall>j. k < j \<and> j \<le> n \<longrightarrow> f j = None"
      by blast
    have "\<forall>j. k < j \<and> j \<le> Suc n \<longrightarrow> f j = None"
      using k(4) None by (auto simp: le_Suc_eq)
    with k show ?thesis by (intro exI [of _ k]) simp
  next
    case (Some a)
    with Suc.prems have "a = r" "lo \<le> Suc n" by (auto split: if_splits)
    with Some show ?thesis by (intro exI [of _ "Suc n"]) auto
  qed
qed

lemma tryDown_None:
  "tryDown f n lo = None \<longleftrightarrow> (\<forall>k. lo \<le> k \<and> k \<le> n \<longrightarrow> f k = None)"
proof (induction n)
  case 0
  then show ?case by auto
next
  case (Suc n)
  show ?case
  proof (cases "Suc n < lo")
    case True
    then show ?thesis by auto
  next
    case False
    show ?thesis
    proof (cases "f (Suc n)")
      case None
      then have "tryDown f (Suc n) lo = tryDown f n lo"
        using False by simp
      moreover have "(\<forall>k. lo \<le> k \<and> k \<le> Suc n \<longrightarrow> f k = None) \<longleftrightarrow>
                     (\<forall>k. lo \<le> k \<and> k \<le> n \<longrightarrow> f k = None)"
        using None by (auto simp: le_Suc_eq)
      ultimately show ?thesis using Suc.IH by simp
    next
      case (Some r)
      then have "tryDown f (Suc n) lo = Some r"
        using False by simp
      moreover have "\<not> (\<forall>k. lo \<le> k \<and> k \<le> Suc n \<longrightarrow> f k = None)"
        using Some False by (auto intro!: exI [of _ "Suc n"])
      ultimately show ?thesis by simp
    qed
  qed
qed

text \<open>A match returns one capture for each group.\<close>

lemma rmatch_captures:
  "rmatch re m p s = Some (n, caps) \<Longrightarrow> length caps = groups re"
proof (induction re arbitrary: p s n caps)
  case Nil
  then show ?case by (simp add: groups_def)
next
  case (Cons a re)
  show ?case
  proof (cases a)
    case Bol
    with Cons show ?thesis by (auto simp: groups_def split: if_splits)
  next
    case Eol
    with Cons show ?thesis by (auto simp: groups_def split: if_splits)
  next
    case (One cl)
    with Cons show ?thesis by (auto simp: groups_def split: if_splits list.splits)
  next
    case (Rep cl lo hi)
    with Cons.prems obtain k where
      "map_option (\<lambda>(n, caps). (k + n, caps)) (rmatch re m (prevAt p s k) (drop k s)) =
       Some (n, caps)"
      by (auto dest!: tryDown_Some)
    with Cons.IH Rep show ?thesis by (auto simp: groups_def)
  next
    case (Grp cl lo hi)
    with Cons.prems obtain k where
      "map_option (\<lambda>(n, caps). (k + n, take k s # caps)) (rmatch re m (prevAt p s k) (drop k s)) =
       Some (n, caps)"
      by (auto dest!: tryDown_Some)
    with Cons.IH Grp show ?thesis by (auto simp: groups_def)
  qed
qed

lemma searchFrom_captures:
  "searchFrom re m p i s = Some (j, n, caps) \<Longrightarrow> length caps = groups re"
  by (induction s arbitrary: p i) (auto split: option.splits dest: rmatch_captures)

lemma match_length:
  "match s re m = Some arr \<Longrightarrow> length arr = Suc (groups re)"
  by (auto simp: match_def rexec_def split: option.splits dest: searchFrom_captures)

lemma groups_res [simp]:
  "groups imageRe = 2" "groups bulletRe = 2" "groups titleRe = 1" "groups subtitleRe = 1"
  by (simp_all add: groups_def imageRe_def bulletRe_def titleRe_def subtitleRe_def)

lemma at_Inr [simp]: "i < length xs \<Longrightarrow> at xs i = Inr (xs ! i)"
  by (simp add: at_def)

lemma match_group1:
  assumes "match b re m = Some tm" "groups re = 1"
  shows "at tm 1 = Inr (tm ! 1)"
  using match_length [OF assms(1)] assms(2) by simp

section \<open>The loops return\<close>

lemma codeLoop_total:
  "\<exists>cl j. codeLoop lines i codeLines = Inr (cl, j)"
proof (induction lines i codeLines rule: codeLoop.induct)
  case (1 lines i codeLines)
  show ?case
  proof (cases "i < length lines \<and> \<not> startsWith (trim (lines ! i)) fence")
    case True
    with "1.IH" [of "lines ! i"] show ?thesis
      by (subst codeLoop.simps) simp
  next
    case False
    then show ?thesis
      by (subst codeLoop.simps) auto
  qed
qed

lemma titleLoop_total:
  "\<exists>t j. titleLoop lines i = Inr (t, j) \<and>
     (t \<noteq> [] \<longrightarrow> (\<exists>l\<in>set lines. match (trim l) titleRe False \<noteq> None))"
proof (induction lines i rule: titleLoop.induct)
  case (1 lines i)
  show ?case
  proof (cases "i < length lines")
    case False
    then show ?thesis by (subst titleLoop.simps) simp
  next
    case True
    show ?thesis
    proof (cases "match (trim (lines ! i)) titleRe False")
      case (Some r)
      then have "\<exists>l\<in>set lines. match (trim l) titleRe False \<noteq> None"
        using True by (auto intro!: bexI [of _ "lines ! i"])
      then show ?thesis
        using True Some by (subst titleLoop.simps) simp
    next
      case None
      show ?thesis
      proof (cases "trim (lines ! i) = []")
        case blank: True
        have "titleLoop lines i = titleLoop lines (i + 1)"
          using True None blank by (subst titleLoop.simps) simp
        with "1.IH" [of "lines ! i" "trim (lines ! i)"] True None blank show ?thesis
          by simp
      next
        case False
        with True None show ?thesis by (subst titleLoop.simps) simp
      qed
    qed
  qed
qed

text \<open>
  An invariant rule for the second loop: a property of \<^verbatim>\<open>currentBullets\<close> and
  \<^verbatim>\<open>slide.content\<close> that each of the five branches keeps holds when the loop is left,
  and the loop is left without an error.
\<close>

lemma contentLoop_rule:
  assumes blank: "\<And>cur sc. P cur sc \<Longrightarrow> P [] (flush cur sc)"
    and image: "\<And>cur sc a s. P cur sc \<Longrightarrow> P [] (flush cur sc @ [ImageBlock a s])"
    and code: "\<And>cur sc lang body. P cur sc \<Longrightarrow> lang \<noteq> [] \<Longrightarrow>
                 P [] (flush cur sc @ [CodeBlock lang body])"
    and para: "\<And>cur sc t. P cur sc \<Longrightarrow> t \<noteq> [] \<Longrightarrow> P [] (flush cur sc @ [Paragraph t])"
  shows "P cur sc \<Longrightarrow>
     (\<forall>cur sc line bm.
         P cur sc \<and> line \<in> set lines \<and> match line bulletRe False = Some bm \<longrightarrow>
         P (cur @ [BulletItem (trim (bm ! 2)) (int (length (bm ! 1)) div 2)]) sc) \<Longrightarrow>
     \<exists>sc' cur'. contentLoop lines i cur sc = Inr (sc', cur') \<and> P cur' sc'"
proof (induction lines i cur sc rule: contentLoop.induct)
  case (1 lines i cur sc)
  note bullet = "1.prems"(2)
  show ?case
  proof (cases "i < length lines")
    case False
    then show ?thesis
      using "1.prems"(1) by (subst contentLoop.simps) simp
  next
    case inside: True
    define line where "line = lines ! i"
    have line: "at lines i = Inr line" "line \<in> set lines"
      using inside by (simp_all add: line_def)
    show ?thesis
    proof (cases "trim line = []")
      case True
      have "contentLoop lines i cur sc = contentLoop lines (i + 1) [] (flush cur sc)"
        using inside line True by (subst contentLoop.simps) simp
      moreover have "P [] (flush cur sc)"
        using "1.prems"(1) by (rule blank)
      ultimately show ?thesis
        using "1.IH"(1) [OF inside line(1) refl True _ bullet] by simp
    next
      case nonblank: False
      show ?thesis
      proof (cases "match (trim line) imageRe False")
        case (Some im)
        then have len: "length im = 3"
          by (auto dest: match_length)
        have "contentLoop lines i cur sc =
              contentLoop lines (i + 1) [] (flush cur sc @ [ImageBlock (im ! 1) (im ! 2)])"
          using inside line nonblank Some len by (subst contentLoop.simps) simp
        moreover have "P [] (flush cur sc @ [ImageBlock (im ! 1) (im ! 2)])"
          using "1.prems"(1) by (rule image)
        ultimately show ?thesis
          using "1.IH"(5) [OF inside line(1) refl nonblank Some _ _ _ bullet,
              of "im ! 1" "im ! 2"] len
          by simp
      next
        case noimage: None
        show ?thesis
        proof (cases "match line bulletRe False")
          case (Some bm)
          then have len: "length bm = 3"
            by (auto dest: match_length)
          let ?item = "BulletItem (trim (bm ! 2)) (int (length (bm ! 1)) div 2)"
          have "contentLoop lines i cur sc = contentLoop lines (i + 1) (cur @ [?item]) sc"
            using inside line nonblank noimage Some len by (subst contentLoop.simps) simp
          moreover have "P (cur @ [?item]) sc"
            using "1.prems"(1) line(2) Some bullet by blast
          ultimately show ?thesis
            using "1.IH"(4) [OF inside line(1) refl nonblank noimage Some _ _ refl refl _ bullet,
                of "bm ! 1" "bm ! 2"] len
            by simp
        next
          case nobullet: None
          show ?thesis
          proof (cases "startsWith (trim line) fence")
            case True
            obtain cl j where cl: "codeLoop lines (i + 1) [] = Inr (cl, j)"
              using codeLoop_total by blast
            let ?lang = "trim (drop 3 (trim line))"
            let ?block = "CodeBlock (if ?lang \<noteq> [] then ?lang else js ''text'') (joinLines cl)"
            have "contentLoop lines i cur sc =
                  contentLoop lines (j + 1) [] (flush cur sc @ [?block])"
              using inside line nonblank noimage nobullet True cl
              by (subst contentLoop.simps) simp
            moreover have "P [] (flush cur sc @ [?block])"
              using "1.prems"(1) by (rule code) (simp add: js_def)
            ultimately show ?thesis
              using "1.IH"(2)
                [OF inside line(1) refl nonblank noimage nobullet True refl cl refl _ bullet]
              by simp
          next
            case False
            have "contentLoop lines i cur sc =
                  contentLoop lines (i + 1) [] (flush cur sc @ [Paragraph (trim line)])"
              using inside line nonblank noimage nobullet False
              by (subst contentLoop.simps) simp
            moreover have "P [] (flush cur sc @ [Paragraph (trim line)])"
              using "1.prems"(1) nonblank by (rule para)
            ultimately show ?thesis
              using "1.IH"(3) [OF inside line(1) refl nonblank noimage nobullet False _ bullet]
              by simp
          qed
        qed
      qed
    qed
  qed
qed

lemma flush_valid:
  "list_all validBlock sc \<Longrightarrow> list_all (\<lambda>it. 0 \<le> level it) cur \<Longrightarrow>
   list_all validBlock (flush cur sc)"
  by (simp add: flush_def)

lemma contentLoop_valid:
  "\<exists>sc cur. contentLoop lines i [] [] = Inr (sc, cur) \<and>
      list_all validBlock sc \<and> list_all (\<lambda>it. 0 \<le> level it) cur"
proof -
  let ?P = "\<lambda>cur sc. list_all validBlock sc \<and> list_all (\<lambda>it. 0 \<le> level it) cur"
  have "\<exists>sc cur. contentLoop lines i [] [] = Inr (sc, cur) \<and> ?P cur sc"
    by (rule contentLoop_rule [where P = ?P]) (simp_all add: flush_valid)
  then show ?thesis .
qed

lemma parseSlideBlock_total:
  "\<exists>s. parseSlideBlock block = Inr s \<and> validSlide s \<and>
     ((\<forall>l\<in>set (splitLines block). match (trim l) titleRe False = None) \<longrightarrow> slide_title s = [])"
proof -
  obtain t j where t: "titleLoop (splitLines block) 0 = Inr (t, j)"
    "t \<noteq> [] \<longrightarrow> (\<exists>l\<in>set (splitLines block). match (trim l) titleRe False \<noteq> None)"
    using titleLoop_total by blast
  obtain sc cur where c: "contentLoop (splitLines block) j [] [] = Inr (sc, cur)"
    "list_all validBlock sc" "list_all (\<lambda>it. 0 \<le> level it) cur"
    using contentLoop_valid by blast
  show ?thesis
    using t c by (auto simp: parseSlideBlock_def validSlide_def flush_valid)
qed

text \<open>The slides pushed by the loop over the blocks are the parsed blocks, in order.\<close>

lemma slideLoop_total:
  "\<exists>ss. slideLoop blocks acc = Inr (acc @ ss) \<and>
      list_all2 (\<lambda>b s. parseSlideBlock b = Inr s) blocks ss"
proof (induction blocks arbitrary: acc)
  case Nil
  then show ?case by simp
next
  case (Cons b blocks)
  obtain s where s: "parseSlideBlock b = Inr s"
    using parseSlideBlock_total by blast
  from Cons.IH [of "acc @ [s]"] obtain ss where
    "slideLoop blocks (acc @ [s]) = Inr (acc @ s # ss)"
    "list_all2 (\<lambda>b s. parseSlideBlock b = Inr s) blocks ss"
    by auto
  with s show ?case by (intro exI [of _ "s # ss"]) simp
qed

text \<open>\<^verbatim>\<open>parseOutline\<close> in terms of the blocks.\<close>

lemma parseOutline_blocks:
  "parseOutline text =
     (case blocksOf text of
        [] \<Rightarrow> Inr \<lparr>title = [], subtitle = [], theme = js ''minimal'', timing_default = 5,
                   slides = []\<rparr>
      | b # bs \<Rightarrow>
          (case slideLoop (if isTitleOnly b then bs else b # bs) [] of
             Inl e \<Rightarrow> Inl e
           | Inr ss \<Rightarrow>
               Inr \<lparr>title = headingText b titleRe, subtitle = headingText b subtitleRe,
                    theme = js ''minimal'', timing_default = 5, slides = ss\<rparr>))"
proof (cases "blocksOf text")
  case Nil
  then show ?thesis by (simp add: parseOutline_def)
next
  case (Cons b bs)
  have t: "at tm 1 = Inr (tm ! 1)" if "match b titleRe True = Some tm" for tm
    using that by (rule match_group1) simp
  have u: "at tm 1 = Inr (tm ! 1)" if "match b subtitleRe True = Some tm" for tm
    using that by (rule match_group1) simp
  have d: "drop 1 (b # bs) = bs" "at (b # bs) 0 = Inr b"
    by simp_all
  show ?thesis
    unfolding parseOutline_def Let_def Cons headingText_def
    by (cases "isTitleOnly b")
       (simp_all add: t u d del: slideLoop.simps One_nat_def split: option.splits sum.splits)
qed

lemma parseOutline_slides:
  "\<exists>d ss. parseOutline text = Inr d \<and> slides d = ss \<and>
     theme d = js ''minimal'' \<and> timing_default d = 5 \<and>
     (case blocksOf text of
        [] \<Rightarrow> ss = [] \<and> title d = [] \<and> subtitle d = []
      | b # bs \<Rightarrow>
          title d = headingText b titleRe \<and> subtitle d = headingText b subtitleRe \<and>
          list_all2 (\<lambda>b s. parseSlideBlock b = Inr s) (if isTitleOnly b then bs else b # bs) ss)"
proof (cases "blocksOf text")
  case Nil
  then show ?thesis by (simp add: parseOutline_blocks)
next
  case (Cons b bs)
  obtain ss where ss: "slideLoop (if isTitleOnly b then bs else b # bs) [] = Inr ss"
    "list_all2 (\<lambda>b s. parseSlideBlock b = Inr s) (if isTitleOnly b then bs else b # bs) ss"
    using slideLoop_total [of _ "[]"] by auto
  show ?thesis
    unfolding parseOutline_blocks Cons using ss by simp
qed

section \<open>The parser returns a valid document\<close>

text \<open>
  C3: for every input, \<open>parseOutline\<close> returns a document (never the error of a read
  that yields \<^verbatim>\<open>undefined\<close>), and the document satisfies the invariants of the data
  model. That the loops end is the content of the termination proofs of \<open>titleLoop\<close>,
  \<open>codeLoop\<close>, \<open>contentLoop\<close> and \<open>splitLoop\<close>.
\<close>

theorem C3_parse_total:
  "\<exists>d. parseOutline text = Inr d \<and> validDocument d"
proof -
  obtain d where d: "parseOutline text = Inr d"
    "case blocksOf text of
       [] \<Rightarrow> slides d = [] \<and> title d = [] \<and> subtitle d = []
     | b # bs \<Rightarrow>
         title d = headingText b titleRe \<and> subtitle d = headingText b subtitleRe \<and>
         list_all2 (\<lambda>b s. parseSlideBlock b = Inr s) (if isTitleOnly b then bs else b # bs)
           (slides d)"
    using parseOutline_slides [of "text"] by auto
  have "validSlide s" if "s \<in> set (slides d)" for s
  proof -
    from that d(2) obtain b where "parseSlideBlock b = Inr s"
      by (auto simp: list_all2_conv_all_nth in_set_conv_nth split: list.splits)
    with parseSlideBlock_total [of b] show ?thesis by auto
  qed
  then show ?thesis
    using d(1) by (auto simp: validDocument_def list_all_iff)
qed

theorem C3_parse_total_witness:
  "\<exists>d. parseOutline (js ''- a\<newline>```'') = Inr d \<and> validDocument d"
  using C3_parse_total [of "js ''- a\<newline>```''"] .

section \<open>Lines and their classification\<close>

lemma trim_Nil_iff: "trim s = [] \<longleftrightarrow> (\<forall>c\<in>set s. isWhiteSpace c)"
proof -
  have "dropWhile isWhiteSpace s = [] \<or> \<not> isWhiteSpace (hd (dropWhile isWhiteSpace s))"
    by (metis hd_dropWhile)
  then have "(\<forall>x\<in>set (dropWhile isWhiteSpace s). isWhiteSpace x) \<longleftrightarrow>
             dropWhile isWhiteSpace s = []"
    by (cases "dropWhile isWhiteSpace s") (auto dest: set_dropWhileD)
  then show ?thesis
    by (simp add: trim_def dropWhile_eq_Nil_conv)
qed

lemma trim_Cons:
  "(\<exists>r. trim s = c # r) \<longleftrightarrow> (\<exists>r. dropWhile isWhiteSpace s = c # r)"
proof
  assume "\<exists>r. dropWhile isWhiteSpace s = c # r"
  then obtain r where r: "dropWhile isWhiteSpace s = c # r" by blast
  then have "\<not> isWhiteSpace c"
    by (metis hd_dropWhile list.distinct(1) list.sel(1))
  then have "dropWhile isWhiteSpace (rev r @ [c]) = dropWhile isWhiteSpace (rev r) @ [c]"
    by (induction "rev r") (auto simp: dropWhile_append)
  then show "\<exists>r. trim s = c # r"
    using r by (simp add: trim_def)
next
  assume "\<exists>r. trim s = c # r"
  then obtain r where r: "trim s = c # r" by blast
  obtain d q where d: "dropWhile isWhiteSpace s = d # q"
    using r by (cases "dropWhile isWhiteSpace s") (auto simp: trim_def)
  then have "\<not> isWhiteSpace d"
    by (metis hd_dropWhile list.distinct(1) list.sel(1))
  then have "dropWhile isWhiteSpace (rev q @ [d]) = dropWhile isWhiteSpace (rev q) @ [d]"
    by (induction "rev q") (auto simp: dropWhile_append)
  with d r have "c = d" by (simp add: trim_def)
  with d show "\<exists>r. dropWhile isWhiteSpace s = c # r" by simp
qed

lemma searchFrom_anchored:
  "searchFrom (Bol # re) False (Some c) i s = None"
  by (induction s arbitrary: c i) simp_all

lemma match_anchored:
  "match s (Bol # re) False = map_option (\<lambda>(n, caps). take n s # caps) (rmatch re False None s)"
  by (cases s) (auto simp: match_def rexec_def searchFrom_anchored split: option.splits)

lemma match_first_unit:
  assumes "match s (Bol # One cl # re) False = Some r"
  shows "\<exists>c u. s = c # u \<and> cmatch cl c"
  using assms by (cases s) (auto simp: match_anchored split: if_splits)

lemma image_first: "match t imageRe False = Some r \<Longrightarrow> \<exists>u. t = bang # u"
  by (auto simp: imageRe_def dest!: match_first_unit)

lemma title_first: "match t titleRe False = Some r \<Longrightarrow> \<exists>u. t = hash # u"
  by (auto simp: titleRe_def dest!: match_first_unit)

lemma special_units [simp]:
  "\<not> isWhiteSpace hyphen" "\<not> isWhiteSpace star" "\<not> isWhiteSpace backtick"
  "hyphen \<noteq> bang" "star \<noteq> bang" "hyphen \<noteq> hash" "star \<noteq> hash" "backtick \<noteq> bang"
  "backtick \<noteq> hyphen" "backtick \<noteq> star" "backtick \<noteq> hash" "isWhiteSpace newline"
  "newline \<noteq> hyphen"
  "bang \<noteq> hyphen" "bang \<noteq> star" "hash \<noteq> hyphen" "hash \<noteq> star" "bang \<noteq> backtick"
  "hyphen \<noteq> backtick" "star \<noteq> backtick" "hash \<noteq> backtick" "hyphen \<noteq> newline"
  by (simp_all add: isWhiteSpace_def hyphen_def star_def backtick_def bang_def hash_def newline_def)

lemma runLen_Space: "runLen Space None s = length (takeWhile isWhiteSpace s)"
proof -
  have "cmatch Space = isWhiteSpace" by (rule ext) simp
  then show ?thesis by (simp add: runLen_def)
qed

text \<open>A match of the bullet expression: the first capture is the whole leading white space.\<close>

lemma bullet_match:
  assumes "match line bulletRe False = Some bm"
  shows "bm ! 1 = takeWhile isWhiteSpace line"
    and "\<exists>c r. dropWhile isWhiteSpace line = c # r \<and> (c = hyphen \<or> c = star)"
proof -
  let ?rest = "[One (AnyOf [hyphen, star]), Rep Space 1 None, Grp Dot 1 None, Eol]"
  let ?f = "\<lambda>k. map_option (\<lambda>(n, caps). (k + n, take k line # caps))
                    (rmatch ?rest False (prevAt None line k) (drop k line))"
  let ?w = "length (takeWhile isWhiteSpace line)"
  from assms obtain n caps where m: "tryDown ?f ?w 0 = Some (n, caps)" and bm: "bm = take n line # caps"
    by (auto simp: bulletRe_def match_anchored runLen_Space)
  from tryDown_Some [OF m] obtain k where k: "k \<le> ?w" "?f k = Some (n, caps)"
    by blast
  from k(2) obtain c r where c: "drop k line = c # r" "c = hyphen \<or> c = star"
    by (cases "drop k line") (auto split: if_splits)
  from k(2) obtain caps' where caps: "caps = take k line # caps'"
    by auto
  have "k = ?w"
  proof (rule ccontr)
    assume "k \<noteq> ?w"
    with k(1) have lt: "k < ?w" by simp
    then have "isWhiteSpace (takeWhile isWhiteSpace line ! k)"
      using nth_mem set_takeWhileD by metis
    moreover have "takeWhile isWhiteSpace line ! k = line ! k"
      using lt by (rule takeWhile_nth)
    moreover have "line ! k = c"
      using c(1) by (metis nth_via_drop)
    ultimately show False using c(2) by auto
  qed
  then have tk: "take k line = takeWhile isWhiteSpace line"
    and dk: "drop k line = dropWhile isWhiteSpace line"
    by (simp_all add: takeWhile_eq_take [symmetric] dropWhile_eq_drop [symmetric])
  have "bm ! 1 = take k line"
    unfolding bm caps by simp
  then show "bm ! 1 = takeWhile isWhiteSpace line"
    unfolding tk .
  show "\<exists>c r. dropWhile isWhiteSpace line = c # r \<and> (c = hyphen \<or> c = star)"
    using c unfolding dk by blast
qed

lemma bullet_line:
  assumes "match line bulletRe False = Some bm"
  shows "trim line \<noteq> []" "match (trim line) imageRe False = None" "match (trim line) titleRe False = None"
    "\<not> startsWith (trim line) fence"
proof -
  from bullet_match(2) [OF assms] obtain c r where
    "dropWhile isWhiteSpace line = c # r" "c = hyphen \<or> c = star" by blast
  then obtain r' where t: "trim line = c # r'" "c = hyphen \<or> c = star"
    using trim_Cons [of line c] by blast
  then show "trim line \<noteq> []" by simp
  show "match (trim line) imageRe False = None"
    using t image_first [of "trim line"] by (cases "match (trim line) imageRe False") auto
  show "match (trim line) titleRe False = None"
    using t title_first [of "trim line"] by (cases "match (trim line) titleRe False") auto
  show "\<not> startsWith (trim line) fence"
    using t by (auto simp: startsWith_def fence_def)
qed

lemma fence_line:
  assumes "startsWith (trim line) fence"
  shows "trim line \<noteq> []" "match (trim line) imageRe False = None" "match line bulletRe False = None"
proof -
  from assms obtain r where t: "trim line = backtick # r"
    by (cases "trim line") (auto simp: startsWith_def fence_def)
  then show "trim line \<noteq> []" by simp
  show "match (trim line) imageRe False = None"
    using t image_first [of "trim line"] by (cases "match (trim line) imageRe False") auto
  from t obtain r' where "dropWhile isWhiteSpace line = backtick # r'"
    using trim_Cons [of line backtick] by blast
  then show "match line bulletRe False = None"
    using bullet_match(2) [of line] by (cases "match line bulletRe False") auto
qed

section \<open>Steps of the second loop\<close>

lemma contentLoop_blank:
  assumes "i < length lines" "trim (lines ! i) = []"
  shows "contentLoop lines i cur sc = contentLoop lines (i + 1) [] (flush cur sc)"
  using assms by (subst contentLoop.simps) simp

lemma contentLoop_bullet:
  assumes "i < length lines" "match (lines ! i) bulletRe False \<noteq> None"
  shows "contentLoop lines i cur sc = contentLoop lines (i + 1) (cur @ [bulletOf (lines ! i)]) sc"
proof -
  from assms(2) obtain bm where bm: "match (lines ! i) bulletRe False = Some bm" by blast
  then have len: "length bm = 3" by (auto dest: match_length)
  show ?thesis
    using assms(1) bm len bullet_line(1,2) [OF bm]
    by (subst contentLoop.simps) (simp add: bulletOf_def)
qed


lemma codeLoop_eq:
  "codeLoop lines i codeLines =
     Inr (codeLines @ takeWhile (\<lambda>l. \<not> isFence l) (drop i lines),
          i + length (takeWhile (\<lambda>l. \<not> isFence l) (drop i lines)))"
proof (induction lines i codeLines rule: codeLoop.induct)
  case (1 lines i codeLines)
  show ?case
  proof (cases "i < length lines")
    case False
    then show ?thesis by (subst codeLoop.simps) simp
  next
    case True
    then have d: "drop i lines = lines ! i # drop (i + 1) lines"
      by (simp add: Cons_nth_drop_Suc)
    show ?thesis
    proof (cases "isFence (lines ! i)")
      case fence: True
      with True show ?thesis
        by (subst codeLoop.simps) (simp add: d isFence_def)
    next
      case False
      with True "1.IH" [of "lines ! i"] show ?thesis
        by (subst codeLoop.simps) (simp add: d isFence_def)
    qed
  qed
qed

lemma contentLoop_fence:
  assumes "i < length lines" "isFence (lines ! i)"
  shows "contentLoop lines i cur sc =
         contentLoop lines (i + 1 + length (takeWhile (\<lambda>l. \<not> isFence l) (drop (i + 1) lines)) + 1) []
           (flush cur sc @
            [CodeBlock
               (if trim (drop 3 (trim (lines ! i))) = [] then js ''text''
                else trim (drop 3 (trim (lines ! i))))
               (joinLines (takeWhile (\<lambda>l. \<not> isFence l) (drop (i + 1) lines)))])"
proof -
  have f: "startsWith (trim (lines ! i)) fence"
    using assms(2) by (simp add: isFence_def)
  show ?thesis
    using assms(1) f fence_line [OF f]
    by (subst contentLoop.simps) (simp add: codeLoop_eq)
qed

lemma contentLoop_end:
  "length lines \<le> i \<Longrightarrow> contentLoop lines i cur sc = Inr (sc, cur)"
  by (subst contentLoop.simps) simp

lemma contentLoop_returns: "\<exists>r. contentLoop lines i cur sc = Inr r"
proof -
  have "\<exists>sc' cur'. contentLoop lines i cur sc = Inr (sc', cur') \<and> True"
    by (rule contentLoop_rule [where P = "\<lambda>cur sc. True"]) simp_all
  then show ?thesis by blast
qed

lemma splitAcc_append:
  "d \<notin> set l \<Longrightarrow> splitAcc d (l @ rest) seg = splitAcc d rest (seg @ l)"
  by (induction l arbitrary: seg) auto

lemma splitLines_joinLines:
  "ls \<noteq> [] \<Longrightarrow> \<forall>l\<in>set ls. newline \<notin> set l \<Longrightarrow> splitAcc newline (joinLines ls) seg = (seg @ hd ls) # tl ls"
proof (induction ls arbitrary: seg rule: joinLines.induct)
  case 1
  then show ?case by simp
next
  case (2 x)
  then show ?case
    using splitAcc_append [of newline x "[]" seg] by simp
next
  case (3 x y ys)
  have "splitAcc newline (joinLines (x # y # ys)) seg = splitAcc newline (newline # joinLines (y # ys)) (seg @ x)"
    using "3.prems" splitAcc_append [of newline x "newline # joinLines (y # ys)" seg] by simp
  also have "\<dots> = (seg @ x) # splitAcc newline (joinLines (y # ys)) []"
    by simp
  also have "\<dots> = (seg @ x) # y # ys"
    using "3.IH" [of "[]"] "3.prems" by simp
  finally show ?case by simp
qed

lemma splitLines_joinLines':
  "ls \<noteq> [] \<Longrightarrow> \<forall>l\<in>set ls. newline \<notin> set l \<Longrightarrow> splitLines (joinLines ls) = ls"
  using splitLines_joinLines [of ls "[]"] by (simp add: splitLines_def)

lemma contentLoop_run:
  "\<forall>l\<in>set run. match l bulletRe False \<noteq> None \<Longrightarrow>
   contentLoop (pre @ run @ post) (length pre) cur sc =
   contentLoop (pre @ run @ post) (length pre + length run) (cur @ map bulletOf run) sc"
proof (induction run arbitrary: pre cur)
  case Nil
  then show ?case by simp
next
  case (Cons l run)
  let ?lines = "pre @ (l # run) @ post"
  have l: "length pre < length ?lines" "?lines ! length pre = l"
    by simp_all
  have "contentLoop ?lines (length pre) cur sc =
        contentLoop ?lines (length pre + 1) (cur @ [bulletOf l]) sc"
    using contentLoop_bullet [OF l(1), of cur sc] Cons.prems unfolding l(2) by simp
  also have "\<dots> = contentLoop ((pre @ [l]) @ run @ post) (length (pre @ [l])) (cur @ [bulletOf l]) sc"
    by simp
  also have "\<dots> = contentLoop ((pre @ [l]) @ run @ post) (length (pre @ [l]) + length run)
                      ((cur @ [bulletOf l]) @ map bulletOf run) sc"
    using Cons.prems by (intro Cons.IH) simp
  finally show ?case by simp
qed

lemma contentLoop_two_runs:
  assumes "\<forall>l\<in>set (run1 @ run2). match l bulletRe False \<noteq> None" "run1 \<noteq> []" "trim blank = []"
  shows "contentLoop (pre @ run1 @ blank # run2 @ post) (length pre) cur sc =
         contentLoop (pre @ run1 @ blank # run2 @ post) (length pre + length run1 + 1 + length run2)
           (map bulletOf run2) (sc @ [BulletList (cur @ map bulletOf run1)])"
proof -
  let ?lines = "pre @ run1 @ blank # run2 @ post"
  have "contentLoop ?lines (length pre) cur sc =
        contentLoop ?lines (length pre + length run1) (cur @ map bulletOf run1) sc"
    using contentLoop_run [of run1 pre "blank # run2 @ post" cur sc] assms(1) by simp
  also have "\<dots> = contentLoop ?lines (length pre + length run1 + 1) []
                      (flush (cur @ map bulletOf run1) sc)"
  proof (rule contentLoop_blank)
    show "length pre + length run1 < length ?lines" by simp
    have "?lines ! (length pre + length run1) = blank"
      by (simp add: nth_append)
    then show "trim (?lines ! (length pre + length run1)) = []"
      using assms(3) by simp
  qed
  also have "flush (cur @ map bulletOf run1) sc = sc @ [BulletList (cur @ map bulletOf run1)]"
    using assms(2) by (simp add: flush_def)
  also have "contentLoop ?lines (length pre + length run1 + 1) [] (sc @ [BulletList (cur @ map bulletOf run1)]) =
             contentLoop ((pre @ run1 @ [blank]) @ run2 @ post) (length (pre @ run1 @ [blank])) []
               (sc @ [BulletList (cur @ map bulletOf run1)])"
    by simp
  also have "\<dots> = contentLoop ((pre @ run1 @ [blank]) @ run2 @ post)
                      (length (pre @ run1 @ [blank]) + length run2) ([] @ map bulletOf run2)
                      (sc @ [BulletList (cur @ map bulletOf run1)])"
    using assms(1) by (intro contentLoop_run) simp
  finally show ?thesis by simp
qed

lemma titleLoop_bullet:
  assumes "i < length lines" "match (lines ! i) bulletRe False \<noteq> None"
  shows "titleLoop lines i = Inr ([], i)"
proof -
  from assms(2) obtain bm where bm: "match (lines ! i) bulletRe False = Some bm" by blast
  show ?thesis
    using assms(1) bullet_line(1,3) [OF bm] by (subst titleLoop.simps) simp
qed

lemma parseSlideBlock_two_runs:
  assumes "run1 \<noteq> []" "run2 \<noteq> []" "\<forall>l\<in>set (run1 @ run2). match l bulletRe False \<noteq> None"
    "trim blank = []" "\<forall>l\<in>set (run1 @ blank # run2). newline \<notin> set l"
  shows "parseSlideBlock (joinLines (run1 @ blank # run2)) =
         Inr \<lparr>slide_title = [],
              content = [BulletList (map bulletOf run1), BulletList (map bulletOf run2)]\<rparr>"
proof -
  let ?lines = "run1 @ blank # run2"
  have s: "splitLines (joinLines ?lines) = ?lines"
    using assms(5) by (intro splitLines_joinLines') simp_all
  have "?lines ! 0 = hd run1" using assms(1) by (cases run1) simp_all
  then have t: "titleLoop ?lines 0 = Inr ([], 0)"
    using assms(1,3) by (intro titleLoop_bullet) simp_all
  have "contentLoop ([] @ run1 @ blank # run2 @ []) (length ([] :: jsstring list)) [] [] =
        contentLoop ([] @ run1 @ blank # run2 @ []) (length ([] :: jsstring list) + length run1 + 1 + length run2)
          (map bulletOf run2) ([] @ [BulletList ([] @ map bulletOf run1)])"
    using assms(1,3,4) by (intro contentLoop_two_runs) simp_all
  then have "contentLoop ?lines 0 [] [] = Inr ([BulletList (map bulletOf run1)], map bulletOf run2)"
    by (simp add: contentLoop_end)
  then show ?thesis
    using s t assms(2) by (simp add: parseSlideBlock_def flush_def)
qed




lemma list_all2_right:
  "list_all2 R xs ys \<Longrightarrow> y \<in> set ys \<Longrightarrow> \<exists>x\<in>set xs. R x y"
  by (induction rule: list_all2_induct) auto

lemma parseOutline_slide_block:
  assumes "parseOutline text = Inr d" "s \<in> set (slides d)"
  shows "\<exists>b\<in>set (blocksOf text). parseSlideBlock b = Inr s"
proof -
  from parseOutline_slides [of "text"] assms(1) have
    "case blocksOf text of
       [] \<Rightarrow> slides d = [] \<and> title d = [] \<and> subtitle d = []
     | b # bs \<Rightarrow>
         title d = headingText b titleRe \<and> subtitle d = headingText b subtitleRe \<and>
         list_all2 (\<lambda>b s. parseSlideBlock b = Inr s) (if isTitleOnly b then bs else b # bs)
           (slides d)"
    by auto
  with assms(2) show ?thesis
    by (cases "blocksOf text") (auto dest!: list_all2_right split: if_splits)
qed

section \<open>Blank lines end a bullet run\<close>

text \<open>
  C7: at a blank line the second loop pushes the pending bullets as one bullet list when
  there are any, pushes nothing otherwise, and goes on with no pending bullets. So a run
  of bullet lines, a blank line and a second run of bullet lines give two bullet lists: in
  the loop, wherever the first run starts, and for a slide block made of exactly these
  lines, whose content is the two lists.
\<close>

theorem C7_blank_line_flush:
  "(i < length lines \<and> trim (lines ! i) = [] \<longrightarrow>
      contentLoop lines i cur sc =
      contentLoop lines (i + 1) [] (if cur \<noteq> [] then sc @ [BulletList cur] else sc)) \<and>
   (run1 \<noteq> [] \<and> (\<forall>l\<in>set (run1 @ run2). match l bulletRe False \<noteq> None) \<and> trim blank = [] \<longrightarrow>
      contentLoop (pre @ run1 @ blank # run2 @ post) (length pre) cur sc =
      contentLoop (pre @ run1 @ blank # run2 @ post) (length pre + length run1 + 1 + length run2)
        (map bulletOf run2) (sc @ [BulletList (cur @ map bulletOf run1)])) \<and>
   (run1 \<noteq> [] \<and> run2 \<noteq> [] \<and> (\<forall>l\<in>set (run1 @ run2). match l bulletRe False \<noteq> None) \<and>
    trim blank = [] \<and> (\<forall>l\<in>set (run1 @ blank # run2). newline \<notin> set l) \<longrightarrow>
      parseSlideBlock (joinLines (run1 @ blank # run2)) =
      Inr \<lparr>slide_title = [],
           content = [BulletList (map bulletOf run1), BulletList (map bulletOf run2)]\<rparr>)"
proof (intro conjI impI)
  assume "i < length lines \<and> trim (lines ! i) = []"
  then show "contentLoop lines i cur sc =
      contentLoop lines (i + 1) [] (if cur \<noteq> [] then sc @ [BulletList cur] else sc)"
    using contentLoop_blank [of i lines cur sc] by (simp add: flush_def)
next
  assume "run1 \<noteq> [] \<and> (\<forall>l\<in>set (run1 @ run2). match l bulletRe False \<noteq> None) \<and> trim blank = []"
  then show "contentLoop (pre @ run1 @ blank # run2 @ post) (length pre) cur sc =
      contentLoop (pre @ run1 @ blank # run2 @ post) (length pre + length run1 + 1 + length run2)
        (map bulletOf run2) (sc @ [BulletList (cur @ map bulletOf run1)])"
    by (intro contentLoop_two_runs) simp_all
next
  assume "run1 \<noteq> [] \<and> run2 \<noteq> [] \<and> (\<forall>l\<in>set (run1 @ run2). match l bulletRe False \<noteq> None) \<and>
    trim blank = [] \<and> (\<forall>l\<in>set (run1 @ blank # run2). newline \<notin> set l)"
  then show "parseSlideBlock (joinLines (run1 @ blank # run2)) =
      Inr \<lparr>slide_title = [],
           content = [BulletList (map bulletOf run1), BulletList (map bulletOf run2)]\<rparr>"
    by (intro parseSlideBlock_two_runs) simp_all
qed

theorem C7_blank_line_flush_witness:
  "parseSlideBlock (js ''- a\<newline>  - b\<newline> \<newline>* c'') =
     Inr \<lparr>slide_title = [],
          content = [BulletList [BulletItem (js ''a'') 0, BulletItem (js ''b'') 1],
                     BulletList [BulletItem (js ''c'') 0]]\<rparr> \<and>
   contentLoop [js ''- a'', js ''  - b'', js '' '', js ''* c''] 2
       [BulletItem (js ''a'') 0, BulletItem (js ''b'') 1] [] =
     contentLoop [js ''- a'', js ''  - b'', js '' '', js ''* c''] 3 []
       [BulletList [BulletItem (js ''a'') 0, BulletItem (js ''b'') 1]] \<and>
   contentLoop [js ''- a'', js ''  - b'', js '' '', js ''* c''] 0 [] [] =
     contentLoop [js ''- a'', js ''  - b'', js '' '', js ''* c''] 4 [BulletItem (js ''c'') 0]
       [BulletList [BulletItem (js ''a'') 0, BulletItem (js ''b'') 1]]"
proof -
  let ?run1 = "[js ''- a'', js ''  - b'']" and ?run2 = "[js ''* c'']" and ?blank = "js '' ''"
  let ?cur = "[BulletItem (js ''a'') 0, BulletItem (js ''b'') 1]"
  have m: "match (js ''- a'') bulletRe False \<noteq> None" "match (js ''  - b'') bulletRe False \<noteq> None"
    "match (js ''* c'') bulletRe False \<noteq> None"
    by code_simp+
  have b: "bulletOf (js ''- a'') = BulletItem (js ''a'') 0" "bulletOf (js ''  - b'') = BulletItem (js ''b'') 1"
    "bulletOf (js ''* c'') = BulletItem (js ''c'') 0"
    by code_simp+
  have t: "trim ?blank = []" by code_simp
  have n: "newline \<notin> set (js ''- a'')" "newline \<notin> set (js ''  - b'')" "newline \<notin> set (js ''* c'')"
    "newline \<notin> set ?blank"
    by code_simp+
  have j: "joinLines (?run1 @ ?blank # ?run2) = js ''- a\<newline>  - b\<newline> \<newline>* c''"
    by code_simp
  note inst = C7_blank_line_flush [of 2 "?run1 @ ?blank # ?run2" ?cur "[]" ?run1 ?run2 ?blank "[]" "[]"]
  have 1: "parseSlideBlock (js ''- a\<newline>  - b\<newline> \<newline>* c'') =
     Inr \<lparr>slide_title = [],
          content = [BulletList [BulletItem (js ''a'') 0, BulletItem (js ''b'') 1],
                     BulletList [BulletItem (js ''c'') 0]]\<rparr>"
    using inst m b t n j by simp
  have 2: "contentLoop (?run1 @ ?blank # ?run2) 2 ?cur [] =
     contentLoop (?run1 @ ?blank # ?run2) (2 + 1) [] [BulletList ?cur]"
    using inst t by (simp add: eval_nat_numeral)
  note inst' = C7_blank_line_flush [of 2 "?run1 @ ?blank # ?run2" "[]" "[]" ?run1 ?run2 ?blank "[]" "[]"]
  have 3: "contentLoop (?run1 @ ?blank # ?run2) 0 [] [] =
     contentLoop (?run1 @ ?blank # ?run2) 4 [BulletItem (js ''c'') 0] [BulletList ?cur]"
    using inst' m b t by (simp add: eval_nat_numeral)
  show ?thesis using 1 2 3 by (simp add: eval_nat_numeral)
qed

section \<open>The fixed fields and the titles\<close>

lemma headingText_None: "match b re True = None \<Longrightarrow> headingText b re = []"
  by (simp add: headingText_def)

text \<open>
  C10: besides its slides, every returned document carries \<open>theme = "minimal"\<close> and
  \<open>timing.default = 5\<close>. The title, the subtitle and each slide title are strings in
  every case (in the model: fields of type \<open>jsstring\<close>); they are the empty string
  when the first block has no match of the title (subtitle) expression, and when no line of
  a slide's block matches the title expression.
\<close>

theorem C10_fixed_fields:
  "\<exists>d. parseOutline text = Inr d \<and> theme d = js ''minimal'' \<and> timing_default d = 5 \<and>
     (case blocksOf text of
        [] \<Rightarrow> title d = [] \<and> subtitle d = []
      | b # bs \<Rightarrow>
          (match b titleRe True = None \<longrightarrow> title d = []) \<and>
          (match b subtitleRe True = None \<longrightarrow> subtitle d = [])) \<and>
     (\<forall>s\<in>set (slides d). \<exists>b\<in>set (blocksOf text).
        parseSlideBlock b = Inr s \<and>
        ((\<forall>l\<in>set (splitLines b). match (trim l) titleRe False = None) \<longrightarrow> slide_title s = []))"
proof -
  obtain d where d: "parseOutline text = Inr d" "theme d = js ''minimal''" "timing_default d = 5"
    "case blocksOf text of
       [] \<Rightarrow> slides d = [] \<and> title d = [] \<and> subtitle d = []
     | b # bs \<Rightarrow>
         title d = headingText b titleRe \<and> subtitle d = headingText b subtitleRe \<and>
         list_all2 (\<lambda>b s. parseSlideBlock b = Inr s) (if isTitleOnly b then bs else b # bs)
           (slides d)"
    using parseOutline_slides [of "text"] by auto
  have "\<exists>b\<in>set (blocksOf text). parseSlideBlock b = Inr s \<and>
          ((\<forall>l\<in>set (splitLines b). match (trim l) titleRe False = None) \<longrightarrow> slide_title s = [])"
    if "s \<in> set (slides d)" for s
  proof -
    from parseOutline_slide_block [OF d(1) that] obtain b where
      b: "b \<in> set (blocksOf text)" "parseSlideBlock b = Inr s" by blast
    with parseSlideBlock_total [of b] show ?thesis by auto
  qed
  moreover have "case blocksOf text of
        [] \<Rightarrow> title d = [] \<and> subtitle d = []
      | b # bs \<Rightarrow>
          (match b titleRe True = None \<longrightarrow> title d = []) \<and>
          (match b subtitleRe True = None \<longrightarrow> subtitle d = [])"
    using d(4) by (auto simp: headingText_None split: list.splits)
  ultimately show ?thesis using d(1,2,3) by blast
qed

theorem C10_fixed_fields_witness:
  "\<exists>d. parseOutline (js ''- a'') = Inr d \<and> theme d = js ''minimal'' \<and> timing_default d = 5 \<and>
     title d = [] \<and> subtitle d = [] \<and>
     slides d = [\<lparr>slide_title = [], content = [BulletList [BulletItem (js ''a'') 0]]\<rparr>]"
proof -
  have b: "blocksOf (js ''- a'') = [js ''- a'']"
    "match (js ''- a'') titleRe True = None" "match (js ''- a'') subtitleRe True = None"
    by code_simp+
  have p: "parseOutline (js ''- a'') =
      Inr \<lparr>title = [], subtitle = [], theme = js ''minimal'', timing_default = 5,
           slides = [\<lparr>slide_title = [], content = [BulletList [BulletItem (js ''a'') 0]]\<rparr>]\<rparr>"
    by code_simp
  from C10_fixed_fields [of "js ''- a''"] obtain d where
    "parseOutline (js ''- a'') = Inr d" "theme d = js ''minimal''" "timing_default d = 5"
    "title d = []" "subtitle d = []"
    using b by auto
  then show ?thesis using p by auto
qed

section \<open>The first block\<close>

text \<open>
  C1, as stated, fails: the title and the subtitle are taken from the first block before the
  block is tested for being title-only. The first block of the outline below holds a bullet,
  so it is not title-only; still the document title is \<open>A\<close> and the subtitle \<open>B\<close>.
\<close>

theorem C1_counterexample:
  "blocksOf (js ''# A\<newline>## B\<newline>- x'') = [js ''# A\<newline>## B\<newline>- x''] \<and>
   \<not> isTitleOnly (js ''# A\<newline>## B\<newline>- x'') \<and>
   parseOutline (js ''# A\<newline>## B\<newline>- x'') =
     Inr \<lparr>title = js ''A'', subtitle = js ''B'', theme = js ''minimal'', timing_default = 5,
          slides = [\<lparr>slide_title = js ''A'',
                      content = [Paragraph (js ''## B''), BulletList [BulletItem (js ''x'') 0]]\<rparr>]\<rparr>"
  by code_simp

text \<open>
  C1, amended: when the first block is not title-only, no block is left out: the first block
  is parsed like every other block and its slide is the first slide of the document. The
  document title and subtitle are nevertheless what lines 83 to 91 found in that block.
\<close>

theorem C1_first_block_is_slide:
  "blocksOf text = b # bs \<and> \<not> isTitleOnly b \<longrightarrow>
     (\<exists>d s ss. parseOutline text = Inr d \<and> parseSlideBlock b = Inr s \<and> slides d = s # ss \<and>
        list_all2 (\<lambda>b s. parseSlideBlock b = Inr s) bs ss \<and>
        title d = headingText b titleRe \<and> subtitle d = headingText b subtitleRe)"
proof (intro impI, elim conjE)
  assume a: "blocksOf text = b # bs" "\<not> isTitleOnly b"
  obtain d where d: "parseOutline text = Inr d"
    "title d = headingText b titleRe" "subtitle d = headingText b subtitleRe"
    "list_all2 (\<lambda>b s. parseSlideBlock b = Inr s) (b # bs) (slides d)"
    using parseOutline_slides [of "text"] a by auto
  from d(4) obtain s ss where "slides d = s # ss" "parseSlideBlock b = Inr s"
    "list_all2 (\<lambda>b s. parseSlideBlock b = Inr s) bs ss"
    by (auto simp: list_all2_Cons1)
  with d show "\<exists>d s ss. parseOutline text = Inr d \<and> parseSlideBlock b = Inr s \<and> slides d = s # ss \<and>
        list_all2 (\<lambda>b s. parseSlideBlock b = Inr s) bs ss \<and>
        title d = headingText b titleRe \<and> subtitle d = headingText b subtitleRe"
    by blast
qed

theorem C1_first_block_is_slide_witness:
  "\<exists>d s. parseOutline (js ''# A\<newline>## B\<newline>- x'') = Inr d \<and>
     parseSlideBlock (js ''# A\<newline>## B\<newline>- x'') = Inr s \<and> slides d = [s] \<and>
     title d = js ''A'' \<and> subtitle d = js ''B''"
proof -
  have b: "blocksOf (js ''# A\<newline>## B\<newline>- x'') = [js ''# A\<newline>## B\<newline>- x'']"
    "\<not> isTitleOnly (js ''# A\<newline>## B\<newline>- x'')"
    "headingText (js ''# A\<newline>## B\<newline>- x'') titleRe = js ''A''"
    "headingText (js ''# A\<newline>## B\<newline>- x'') subtitleRe = js ''B''"
    by code_simp+
  show ?thesis
    using C1_first_block_is_slide [of "js ''# A\<newline>## B\<newline>- x''" "js ''# A\<newline>## B\<newline>- x''" "[]"] b
    by auto
qed

section \<open>Segmentation\<close>

lemma rmatch_separator:
  "rmatch separatorRe True p s =
     (if atLineStart p \<and> take 3 s = separator \<and> atLineEnd (drop 3 s) then Some (3, []) else None)"
proof (cases s)
  case Nil
  then show ?thesis by (simp add: separatorRe_def separator_def)
next
  case s1: (Cons a s')
  show ?thesis
  proof (cases s')
    case Nil
    with s1 show ?thesis by (simp add: separatorRe_def separator_def)
  next
    case s2: (Cons b s'')
    show ?thesis
    proof (cases s'')
      case Nil
      with s1 s2 show ?thesis by (simp add: separatorRe_def separator_def)
    next
      case (Cons c s''')
      with s1 s2 show ?thesis
        by (auto simp: separatorRe_def separator_def atLineStart_def atLineEnd_def
            split: option.splits list.splits)
    qed
  qed
qed

lemma line_units [simp]:
  "isLineTerminator newline" "\<not> isLineTerminator hyphen"
  by (simp_all add: isLineTerminator_def newline_def hyphen_def)

lemma rmatch_separator_context:
  "rmatch separatorRe True p (l @ newline # t) =
     (if l = [] then None else rmatch separatorRe True p l)"
proof (cases l)
  case Nil
  then show ?thesis by (simp add: rmatch_separator separator_def)
next
  case l1: (Cons a l')
  show ?thesis
  proof (cases l')
    case Nil
    with l1 show ?thesis by (simp add: rmatch_separator separator_def)
  next
    case l2: (Cons b l'')
    show ?thesis
    proof (cases l'')
      case Nil
      with l1 l2 show ?thesis by (simp add: rmatch_separator separator_def)
    next
      case (Cons c l''')
      with l1 l2 show ?thesis
        by (cases l''') (simp_all add: rmatch_separator separator_def atLineEnd_def)
    qed
  qed
qed

lemma rmatch_separator_start:
  "atLineStart p \<Longrightarrow> rmatch separatorRe True p s = rmatch separatorRe True None s"
  by (simp add: rmatch_separator atLineStart_def)

lemma searchFrom_None_shift:
  "searchFrom re m p i s = None \<longleftrightarrow> searchFrom re m p j s = None"
  by (induction s arbitrary: p i j) (auto split: option.splits)

lemma searchFrom_separator_start:
  "atLineStart p \<Longrightarrow> searchFrom separatorRe True p i l = None \<longleftrightarrow> noSeparator l"
  unfolding noSeparator_def rexec_def
  by (cases l) (auto simp: rmatch_separator_start searchFrom_None_shift [of _ _ _ "Suc i" _ "Suc 0"]
      split: option.splits)

text \<open>A line without separator, followed by a newline, goes to the segment.\<close>

lemma splitLoop_line:
  "searchFrom separatorRe True p i l = None \<Longrightarrow>
   splitLoop separatorRe True p (l @ newline # t) seg =
   splitLoop separatorRe True (Some newline) t (seg @ l @ [newline])"
proof (induction l arbitrary: p i seg)
  case Nil
  show ?case
    by (subst splitLoop.simps) (simp add: rmatch_separator_context [of p "[]", simplified])
next
  case (Cons c l)
  from Cons.prems have n: "rmatch separatorRe True p (c # l) = None"
    and r: "searchFrom separatorRe True (Some c) (Suc i) l = None"
    by (auto split: option.splits)
  have "rmatch separatorRe True p ((c # l) @ newline # t) = None"
    using n by (simp only: rmatch_separator_context) simp
  then have "splitLoop separatorRe True p ((c # l) @ newline # t) seg =
        splitLoop separatorRe True (Some c) (l @ newline # t) (seg @ [c])"
    by (subst splitLoop.simps) simp
  also have "\<dots> = splitLoop separatorRe True (Some newline) t ((seg @ [c]) @ l @ [newline])"
    using r by (rule Cons.IH)
  finally show ?case by simp
qed

lemma splitLoop_last_line:
  "searchFrom separatorRe True p i l = None \<Longrightarrow> splitLoop separatorRe True p l seg = [seg @ l]"
proof (induction l arbitrary: p i seg)
  case Nil
  show ?case by (subst splitLoop.simps) simp
next
  case (Cons c l)
  from Cons.prems have n: "rmatch separatorRe True p (c # l) = None"
    and r: "searchFrom separatorRe True (Some c) (Suc i) l = None"
    by (auto split: option.splits)
  have "splitLoop separatorRe True p (c # l) seg = splitLoop separatorRe True (Some c) l (seg @ [c])"
    using n by (subst splitLoop.simps) simp
  also have "\<dots> = [(seg @ [c]) @ l]"
    using r by (rule Cons.IH)
  finally show ?case by simp
qed

lemma prevAt_separator: "prevAt p (separator @ t) 3 = Some hyphen"
  by (simp add: prevAt_def separator_def)

lemma splitLoop_separator:
  assumes "atLineStart p" "atLineEnd t"
  shows "splitLoop separatorRe True p (separator @ t) seg =
         seg # splitLoop separatorRe True (Some hyphen) t []"
proof -
  have m: "rmatch separatorRe True p (hyphen # hyphen # hyphen # t) = Some (3, [])"
    using assms by (simp add: rmatch_separator separator_def)
  have pv: "prevAt p (hyphen # hyphen # hyphen # t) 3 = Some hyphen"
    by (simp add: prevAt_def)
  have "splitLoop separatorRe True p (hyphen # hyphen # hyphen # t) seg =
        seg # splitLoop separatorRe True (Some hyphen) t []"
    by (subst splitLoop.simps) (simp add: m pv)
  then show ?thesis by (simp add: separator_def)
qed

lemma searchFrom_empty_hyphen: "searchFrom separatorRe True p i [] = None"
  by (simp add: rmatch_separator separator_def)

lemma splitLoop_lines:
  "L \<noteq> [] \<Longrightarrow> \<forall>l\<in>set L. l = separator \<or> noSeparator l \<Longrightarrow> atLineStart p \<Longrightarrow>
   splitLoop separatorRe True p (joinLines L) seg = segLines L seg"
proof (induction L seg arbitrary: p rule: segLines.induct)
  case (1 seg)
  then show ?case by simp
next
  case (2 l seg)
  show ?case
  proof (cases "l = separator")
    case True
    have "splitLoop separatorRe True p (separator @ []) seg =
          seg # splitLoop separatorRe True (Some hyphen) [] []"
      using "2.prems"(3) by (intro splitLoop_separator) (simp_all add: atLineEnd_def)
    also have "splitLoop separatorRe True (Some hyphen) [] [] = [[]]"
      by (subst splitLoop.simps) simp
    finally show ?thesis using True by simp
  next
    case False
    with "2.prems" have "searchFrom separatorRe True p 0 l = None"
      by (simp add: searchFrom_separator_start)
    from splitLoop_last_line [OF this] False show ?thesis by simp
  qed
next
  case (3 l l' ls seg)
  have nl: "atLineStart (Some newline)" by (simp add: atLineStart_def)
  have rest: "\<forall>l\<in>set (l' # ls). l = separator \<or> noSeparator l"
    using "3.prems"(2) by simp
  show ?case
  proof (cases "l = separator")
    case True
    have "splitLoop separatorRe True p (separator @ newline # joinLines (l' # ls)) seg =
          seg # splitLoop separatorRe True (Some hyphen) (newline # joinLines (l' # ls)) []"
      using "3.prems"(3) by (intro splitLoop_separator) (simp_all add: atLineEnd_def)
    also have "splitLoop separatorRe True (Some hyphen) (newline # joinLines (l' # ls)) [] =
          splitLoop separatorRe True (Some newline) (joinLines (l' # ls)) [newline]"
      using splitLoop_line [of "Some hyphen" 0 "[]" "joinLines (l' # ls)" "[]"]
        searchFrom_empty_hyphen [of "Some hyphen" 0]
      by simp
    also have "splitLoop separatorRe True (Some newline) (joinLines (l' # ls)) [newline] =
          segLines (l' # ls) [newline]"
      using "3.IH"(1) [OF True _ rest nl] by simp
    finally show ?thesis using True by simp
  next
    case False
    with "3.prems" have "searchFrom separatorRe True p 0 l = None"
      by (simp add: searchFrom_separator_start)
    from splitLoop_line [OF this] have
      "splitLoop separatorRe True p (l @ newline # joinLines (l' # ls)) seg =
       splitLoop separatorRe True (Some newline) (joinLines (l' # ls)) (seg @ l @ [newline])" .
    also have "\<dots> = segLines (l' # ls) (seg @ l @ [newline])"
      using "3.IH"(2) [OF False _ rest nl] by simp
    finally show ?thesis using False by simp
  qed
qed

lemma splitRe_lines:
  assumes "\<forall>l\<in>set L. l = separator \<or> noSeparator l"
  shows "splitRe (joinLines L) separatorRe True = segLines L []"
proof (cases "joinLines L = []")
  case True
  then have "L = [] \<or> L = [[]]"
    by (cases L rule: joinLines.cases) auto
  moreover have "[] \<noteq> separator" by (simp add: separator_def)
  ultimately show ?thesis
    using True by (auto simp: splitRe_def rmatch_separator separator_def)
next
  case False
  then have "L \<noteq> []" by auto
  from splitLoop_lines [OF this assms, of None "[]"] False show ?thesis
    by (simp add: splitRe_def atLineStart_def)
qed

lemma noSeparator_separator: "\<not> noSeparator separator"
  by (simp add: noSeparator_def rexec_def separator_def rmatch_separator atLineStart_def atLineEnd_def)

lemma segLines_plain:
  "\<forall>l\<in>set s. l \<noteq> separator \<Longrightarrow> segLines s acc = [acc @ joinLines s]"
  by (induction s acc rule: segLines.induct) simp_all

lemma segLines_until_separator:
  "\<forall>l\<in>set s. l \<noteq> separator \<Longrightarrow>
   segLines (s @ separator # rest) acc =
     (acc @ concat (map (\<lambda>l. l @ [newline]) s)) #
     (if rest = [] then [[]] else segLines rest [newline])"
proof (induction s arbitrary: acc)
  case Nil
  then show ?case by (cases rest) simp_all
next
  case (Cons l s)
  obtain l' ls where t: "s @ separator # rest = l' # ls"
    by (cases "s @ separator # rest") simp_all
  have "segLines ((l # s) @ separator # rest) acc = segLines (l # l' # ls) acc"
    using t by simp
  also have "\<dots> = segLines (l' # ls) (acc @ l @ [newline])"
    using Cons.prems by simp
  also have "\<dots> = segLines (s @ separator # rest) (acc @ l @ [newline])"
    using t by simp
  also have "\<dots> = ((acc @ l @ [newline]) @ concat (map (\<lambda>l. l @ [newline]) s)) #
     (if rest = [] then [[]] else segLines rest [newline])"
    using Cons.prems by (intro Cons.IH) simp
  finally show ?case by simp
qed

lemma trim_ws_prefix: "\<forall>c\<in>set a. isWhiteSpace c \<Longrightarrow> trim (a @ x) = trim x"
  by (simp add: trim_def dropWhile_append2)

lemma trim_ws_suffix: "\<forall>c\<in>set a. isWhiteSpace c \<Longrightarrow> trim (x @ a) = trim x"
proof -
  assume a: "\<forall>c\<in>set a. isWhiteSpace c"
  have "dropWhile isWhiteSpace (rev (dropWhile isWhiteSpace (x @ a))) =
        dropWhile isWhiteSpace (rev (dropWhile isWhiteSpace x))"
  proof (cases "\<forall>c\<in>set x. isWhiteSpace c")
    case True
    then have d: "dropWhile isWhiteSpace x = []" "dropWhile isWhiteSpace (x @ a) = []"
      using a by (auto simp: dropWhile_eq_Nil_conv)
    show ?thesis unfolding d ..
  next
    case False
    then have "dropWhile isWhiteSpace (x @ a) = dropWhile isWhiteSpace x @ a"
      by (metis dropWhile_append1 dropWhile_append3 split_list_first_prop) 
    moreover have "dropWhile isWhiteSpace (rev a @ y) = dropWhile isWhiteSpace y" for y
      using a by (intro dropWhile_append2) simp
    ultimately show ?thesis by simp
  qed
  then show ?thesis by (simp add: trim_def)
qed

lemma concat_lines:
  "concat (map (\<lambda>l. l @ [newline]) s) = (if s = [] then [] else joinLines s @ [newline])"
  by (induction s rule: joinLines.induct) simp_all

lemma trim_segLines:
  "segs \<noteq> [] \<Longrightarrow> \<forall>s\<in>set segs. \<forall>l\<in>set s. l \<noteq> separator \<Longrightarrow> \<forall>c\<in>set acc. isWhiteSpace c \<Longrightarrow>
   map trim (segLines (sepJoin segs) acc) = map (\<lambda>s. trim (joinLines s)) segs"
proof (induction segs arbitrary: acc rule: sepJoin.induct)
  case 1
  then show ?case by simp
next
  case (2 s)
  then show ?case by (simp add: segLines_plain trim_ws_prefix)
next
  case (3 s t ts)
  have ws: "\<forall>c\<in>set [newline]. isWhiteSpace c" by simp
  have ih: "map trim (segLines (sepJoin (t # ts)) [newline]) = map (\<lambda>s. trim (joinLines s)) (t # ts)"
    using "3.prems"(2) by (intro "3.IH" ws) simp_all
  have e: "map trim (if sepJoin (t # ts) = [] then [[]] else segLines (sepJoin (t # ts)) [newline]) =
           map trim (segLines (sepJoin (t # ts)) [newline])"
    by (simp add: trim_def)
  have "trim (acc @ concat (map (\<lambda>l. l @ [newline]) s)) = trim (joinLines s)"
    using "3.prems"(3) by (simp add: concat_lines trim_ws_prefix trim_ws_suffix [of "[newline]", simplified])
  moreover have "segLines (sepJoin (s # t # ts)) acc =
      (acc @ concat (map (\<lambda>l. l @ [newline]) s)) #
      (if sepJoin (t # ts) = [] then [[]] else segLines (sepJoin (t # ts)) [newline])"
    using "3.prems"(2) segLines_until_separator [of s "sepJoin (t # ts)" acc] by simp
  ultimately show ?case using ih e by simp
qed

lemma blocksOf_segments:
  assumes "segs \<noteq> []" "\<forall>s\<in>set segs. \<forall>l\<in>set s. noSeparator l"
  shows "map trim (splitRe (joinLines (sepJoin segs)) separatorRe True) =
           map (\<lambda>s. trim (joinLines s)) segs"
    and "blocksOf (joinLines (sepJoin segs)) =
           filter (\<lambda>b. b \<noteq> []) (map (\<lambda>s. trim (joinLines s)) segs)"
proof -
  have ns: "\<forall>s\<in>set segs. \<forall>l\<in>set s. l \<noteq> separator"
    using assms(2) noSeparator_separator by blast
  have "l = separator \<or> noSeparator l" if "l \<in> set (sepJoin segs)" for l
    using that assms(2) by (induction segs rule: sepJoin.induct) auto
  then have "splitRe (joinLines (sepJoin segs)) separatorRe True = segLines (sepJoin segs) []"
    by (intro splitRe_lines) blast
  then show "map trim (splitRe (joinLines (sepJoin segs)) separatorRe True) =
           map (\<lambda>s. trim (joinLines s)) segs"
    using trim_segLines [OF assms(1) ns, of "[]"] by simp
  then show "blocksOf (joinLines (sepJoin segs)) =
           filter (\<lambda>b. b \<noteq> []) (map (\<lambda>s. trim (joinLines s)) segs)"
    by (simp add: blocksOf_def)
qed

text \<open>
  C4, as stated, fails: the separator expression \<^verbatim>\<open>/^---$/m\<close> admits nothing but the
  three hyphens between the start and the end of a line. A line of three hyphens with a
  space before and after is text like any other, and the outline below is one block.
\<close>

theorem C4_counterexample:
  "blocksOf (js ''a\<newline> --- \<newline>b'') = [js ''a\<newline> --- \<newline>b'']"
  by code_simp

text \<open>
  C4, amended: the outline is split at the lines that are exactly \<^verbatim>\<open>---\<close>; each segment
  is trimmed and the segments that are then empty are dropped. For \<open>N + 1\<close> groups of
  lines in which the separator expression finds no match, put together with \<open>N\<close>
  separator lines, the blocks are the trimmed groups that are not empty, in their order;
  there are \<open>N + 1\<close> of them when no group is empty after trimming.
\<close>

theorem C4_segmentation:
  "segs \<noteq> [] \<and> (\<forall>s\<in>set segs. \<forall>l\<in>set s. noSeparator l) \<longrightarrow>
     blocksOf (joinLines (sepJoin segs)) =
       filter (\<lambda>b. b \<noteq> []) (map (\<lambda>s. trim (joinLines s)) segs) \<and>
     ((\<forall>s\<in>set segs. trim (joinLines s) \<noteq> []) \<longrightarrow>
        blocksOf (joinLines (sepJoin segs)) = map (\<lambda>s. trim (joinLines s)) segs \<and>
        length (blocksOf (joinLines (sepJoin segs))) = length segs)"
proof (intro impI, elim conjE)
  assume a: "segs \<noteq> []" "\<forall>s\<in>set segs. \<forall>l\<in>set s. noSeparator l"
  note b = blocksOf_segments(2) [OF a]
  have "filter (\<lambda>b. b \<noteq> []) (map (\<lambda>s. trim (joinLines s)) segs) = map (\<lambda>s. trim (joinLines s)) segs"
    if "\<forall>s\<in>set segs. trim (joinLines s) \<noteq> []"
    using that by (induction segs) simp_all
  then show "blocksOf (joinLines (sepJoin segs)) =
       filter (\<lambda>b. b \<noteq> []) (map (\<lambda>s. trim (joinLines s)) segs) \<and>
     ((\<forall>s\<in>set segs. trim (joinLines s) \<noteq> []) \<longrightarrow>
        blocksOf (joinLines (sepJoin segs)) = map (\<lambda>s. trim (joinLines s)) segs \<and>
        length (blocksOf (joinLines (sepJoin segs))) = length segs)"
    using b by simp
qed

theorem C4_segmentation_witness:
  "blocksOf (js ''a\<newline>---\<newline> b\<newline>c\<newline>'') = [js ''a'', js ''b\<newline>c''] \<and>
   length (blocksOf (js ''a\<newline>---\<newline> b\<newline>c\<newline>'')) = 2"
proof -
  let ?segs = "[[js ''a''], [js '' b'', js ''c'', js '''']]"
  have n: "noSeparator (js ''a'')" "noSeparator (js '' b'')" "noSeparator (js ''c'')" "noSeparator (js '''')"
    by code_simp+
  have j: "joinLines (sepJoin ?segs) = js ''a\<newline>---\<newline> b\<newline>c\<newline>''"
    "trim (joinLines [js ''a'']) = js ''a''"
    "trim (joinLines [js '' b'', js ''c'', js '''']) = js ''b\<newline>c''"
    "js ''a'' \<noteq> []" "js ''b\<newline>c'' \<noteq> []"
    by code_simp+
  show ?thesis
    using C4_segmentation [of ?segs] n by (simp add: j del: joinLines.simps sepJoin.simps)
qed

section \<open>Blank blocks\<close>

text \<open>
  C5, as stated, fails: a segment of blank lines only is empty after trimming and is dropped
  at line 75 before any slide is parsed. The outline below has three segments, the second
  one blank, and gives two slides.
\<close>

theorem C5_counterexample:
  "parseOutline (js ''a\<newline>---\<newline> \<newline>\<newline>---\<newline>b'') =
     Inr \<lparr>title = [], subtitle = [], theme = js ''minimal'', timing_default = 5,
          slides = [\<lparr>slide_title = [], content = [Paragraph (js ''a'')]\<rparr>,
                    \<lparr>slide_title = [], content = [Paragraph (js ''b'')]\<rparr>]\<rparr>"
  by code_simp

lemma parseOutline_cong:
  "blocksOf t1 = blocksOf t2 \<Longrightarrow> parseOutline t1 = parseOutline t2"
  by (simp add: parseOutline_blocks)

lemma blocksOf_empty: "blocksOf [] = []"
  by (simp add: blocksOf_def splitRe_def rmatch_separator separator_def trim_def)

lemma blocksOf_without_blank:
  assumes "segs \<noteq> []" "\<forall>s\<in>set segs. \<forall>l\<in>set s. noSeparator l"
  shows "blocksOf (joinLines (sepJoin (filter (\<lambda>s. trim (joinLines s) \<noteq> []) segs))) =
         blocksOf (joinLines (sepJoin segs))"
proof -
  let ?f = "filter (\<lambda>s. trim (joinLines s) \<noteq> []) segs"
  have r: "filter (\<lambda>b. b \<noteq> []) (map (\<lambda>s. trim (joinLines s)) segs) = map (\<lambda>s. trim (joinLines s)) ?f"
    by (induction segs) simp_all
  show ?thesis
  proof (cases "?f = []")
    case True
    with r show ?thesis
      using blocksOf_segments(2) [OF assms] by (simp add: blocksOf_empty)
  next
    case False
    have "\<forall>s\<in>set ?f. \<forall>l\<in>set s. noSeparator l" using assms(2) by auto
    from blocksOf_segments(2) [OF False this]
    have "blocksOf (joinLines (sepJoin ?f)) = filter (\<lambda>b. b \<noteq> []) (map (\<lambda>s. trim (joinLines s)) ?f)" .
    also have "\<dots> = map (\<lambda>s. trim (joinLines s)) ?f"
      by (induction segs) simp_all
    finally show ?thesis
      using r blocksOf_segments(2) [OF assms] by simp
  qed
qed

lemma match_empty_title: "match [] titleRe False = None"
  by code_simp

lemma titleLoop_blank:
  "\<forall>l\<in>set lines. trim l = [] \<Longrightarrow> \<exists>j\<ge>length lines. titleLoop lines i = Inr ([], j)"
proof (induction lines i rule: titleLoop.induct)
  case (1 lines i)
  show ?case
  proof (cases "i < length lines")
    case False
    then show ?thesis by (subst titleLoop.simps) simp
  next
    case True
    with "1.prems" have b: "trim (lines ! i) = []" by simp
    have "titleLoop lines i = titleLoop lines (i + 1)"
      using True b by (subst titleLoop.simps) (simp add: match_empty_title)
    with "1.IH" [of "lines ! i" "trim (lines ! i)"] True b "1.prems" show ?thesis
      by (simp add: match_empty_title)
  qed
qed

lemma parseSlideBlock_blank:
  assumes "\<forall>l\<in>set (splitLines block). trim l = []"
  shows "parseSlideBlock block = Inr \<lparr>slide_title = [], content = []\<rparr>"
proof -
  from titleLoop_blank [OF assms, of 0] obtain j where
    "length (splitLines block) \<le> j" "titleLoop (splitLines block) 0 = Inr ([], j)" by blast
  then show ?thesis
    by (simp add: parseSlideBlock_def contentLoop_end flush_def)
qed

lemma splitAcc_head: "\<exists>x rest. splitAcc d s seg = (seg @ x) # rest"
proof (induction s arbitrary: seg)
  case Nil
  then show ?case by simp
next
  case (Cons c s)
  show ?case
  proof (cases "c = d")
    case True
    then show ?thesis by simp
  next
    case False
    from Cons [of "seg @ [c]"] obtain x rest where "splitAcc d s (seg @ [c]) = ((seg @ [c]) @ x) # rest"
      by blast
    with False show ?thesis by (intro exI [of _ "c # x"]) simp
  qed
qed

lemma block_not_blank:
  assumes "b \<in> set (blocksOf text)"
  shows "\<exists>l\<in>set (splitLines b). trim l \<noteq> []"
proof -
  from assms obtain x where x: "b = trim x" "b \<noteq> []"
    by (auto simp: blocksOf_def)
  then obtain c r where c: "trim x = c # r" by (cases "trim x") auto
  then obtain r' where "dropWhile isWhiteSpace x = c # r'"
    using trim_Cons [of x c] by blast
  then have nw: "\<not> isWhiteSpace c"
    by (metis hd_dropWhile list.distinct(1) list.sel(1))
  then have "c \<noteq> newline" by auto
  then have "splitLines b = splitAcc newline r [c]"
    using x(1) c by (simp add: splitLines_def)
  with splitAcc_head [of newline r "[c]"] obtain y rest where "splitLines b = (c # y) # rest"
    by auto
  moreover have "trim (c # y) \<noteq> []"
    using nw by (simp add: trim_Nil_iff)
  ultimately show ?thesis by auto
qed

text \<open>
  C5, amended: a segment that consists of blank lines only contributes no slide: the document
  is the one of the outline without the blank segments, and no block that reaches
  \<open>parseSlideBlock\<close> consists of blank lines only. (Applied to such a block,
  \<open>parseSlideBlock\<close> would return a slide with the empty title and no content.)
\<close>

theorem C5_blank_block_dropped:
  "(segs \<noteq> [] \<and> (\<forall>s\<in>set segs. \<forall>l\<in>set s. noSeparator l) \<longrightarrow>
      parseOutline (joinLines (sepJoin segs)) =
      parseOutline (joinLines (sepJoin (filter (\<lambda>s. trim (joinLines s) \<noteq> []) segs)))) \<and>
   (\<forall>b\<in>set (blocksOf text). \<exists>l\<in>set (splitLines b). trim l \<noteq> []) \<and>
   ((\<forall>l\<in>set (splitLines block). trim l = []) \<longrightarrow>
      parseSlideBlock block = Inr \<lparr>slide_title = [], content = []\<rparr>)"
  using blocksOf_without_blank [of segs] parseOutline_cong block_not_blank [of _ "text"]
    parseSlideBlock_blank [of block]
  by (intro conjI impI ballI) (metis, blast, blast)

theorem C5_blank_block_dropped_witness:
  "parseOutline (js ''a\<newline>---\<newline> \<newline>\<newline>---\<newline>b'') = parseOutline (js ''a\<newline>---\<newline>b'') \<and>
   parseSlideBlock (js '' \<newline>'') = Inr \<lparr>slide_title = [], content = []\<rparr> \<and>
   (\<exists>l. l \<in> set (splitLines (js ''a'')) \<and> trim l \<noteq> [])"
proof -
  let ?segs = "[[js ''a''], [js '' '', js ''''], [js ''b'']]"
  have n: "noSeparator (js ''a'')" "noSeparator (js '' '')" "noSeparator (js '''')" "noSeparator (js ''b'')"
    by code_simp+
  have j: "joinLines (sepJoin ?segs) = js ''a\<newline>---\<newline> \<newline>\<newline>---\<newline>b''"
    "joinLines (sepJoin [[js ''a''], [js ''b'']]) = js ''a\<newline>---\<newline>b''"
    by code_simp+
  have t: "trim (joinLines [js ''a'']) \<noteq> []" "trim (joinLines [js '' '', js '''']) = []"
    "trim (joinLines [js ''b'']) \<noteq> []"
    by code_simp+
  have s: "splitLines (js '' \<newline>'') = [js '' '', js '''']" "trim (js '' '') = []" "trim (js '''') = []"
    by code_simp+
  have b: "js ''a'' \<in> set (blocksOf (js ''a''))"
    by code_simp
  note inst = C5_blank_block_dropped [of ?segs "js ''a''" "js '' \<newline>''"]
  have 1: "parseOutline (js ''a\<newline>---\<newline> \<newline>\<newline>---\<newline>b'') = parseOutline (js ''a\<newline>---\<newline>b'')"
    using inst n t by (simp add: j del: joinLines.simps sepJoin.simps)
  have 2: "parseSlideBlock (js '' \<newline>'') = Inr \<lparr>slide_title = [], content = []\<rparr>"
    using inst s by simp
  have 3: "\<exists>l. l \<in> set (splitLines (js ''a'')) \<and> trim l \<noteq> []"
    using inst b by blast
  show ?thesis using 1 2 3 by blast
qed

section \<open>Fenced code\<close>

lemma contentLoop_prefix:
  "\<exists>more cur'. contentLoop lines i cur sc = Inr (sc @ more, cur')"
proof -
  let ?P = "\<lambda>(cur :: bulletItem list) sc'. \<exists>more. sc' = sc @ more"
  have "\<exists>sc' cur'. contentLoop lines i cur sc = Inr (sc', cur') \<and> ?P cur' sc'"
    by (rule contentLoop_rule [where P = ?P]) (auto simp: flush_def)
  then show ?thesis by blast
qed

lemma titleLoop_fence:
  assumes "i < length lines" "isFence (lines ! i)"
  shows "titleLoop lines i = Inr ([], i)"
proof -
  from assms(2) obtain r where t: "trim (lines ! i) = backtick # r"
    by (cases "trim (lines ! i)") (auto simp: isFence_def startsWith_def fence_def)
  have "match (trim (lines ! i)) titleRe False = None"
    using t title_first [of "trim (lines ! i)"]
    by (cases "match (trim (lines ! i)) titleRe False") auto
  with assms(1) t show ?thesis by (subst titleLoop.simps) simp
qed

lemma titleLoop_title:
  assumes "i < length lines" "match (trim (lines ! i)) titleRe False \<noteq> None"
  shows "titleLoop lines i = Inr (slideTitleOf (lines ! i), i + 1)"
  using assms by (subst titleLoop.simps) (auto simp: slideTitleOf_def)

text \<open>The slide of a block: optional title line, bullet lines, a fenced block, and more.\<close>

lemma parseSlideBlock_fenced:
  assumes head: "head = [] \<or> (\<exists>t. head = [t] \<and> match (trim t) titleRe False \<noteq> None)"
    and run: "\<forall>l\<in>set run. match l bulletRe False \<noteq> None"
    and fl: "isFence fl"
    and body: "\<forall>l\<in>set body. \<not> isFence l"
    and tail: "tail = [] \<or> isFence (hd tail)"
    and nl: "\<forall>l\<in>set (head @ run @ fl # body @ tail). newline \<notin> set l"
  shows "\<exists>s more. parseSlideBlock (joinLines (head @ run @ fl # body @ tail)) = Inr s \<and>
      slide_title s = (case head of [] \<Rightarrow> [] | t # _ \<Rightarrow> slideTitleOf t) \<and>
      content s =
        flush (map bulletOf run) [] @
        CodeBlock (if trim (drop 3 (trim fl)) = [] then js ''text'' else trim (drop 3 (trim fl)))
          (joinLines body) # more \<and>
      (length tail \<le> 1 \<longrightarrow> more = [])"
proof -
  let ?lines = "head @ run @ fl # body @ tail"
  let ?i = "length head + length run"
  let ?block = "CodeBlock (if trim (drop 3 (trim fl)) = [] then js ''text'' else trim (drop 3 (trim fl)))
          (joinLines body)"
  let ?sc = "flush (map bulletOf run) [] @ [?block]"
  have s: "splitLines (joinLines ?lines) = ?lines"
    using nl by (intro splitLines_joinLines') simp_all
  have li: "?i < length ?lines" "?lines ! ?i = fl"
    by (simp_all add: nth_append)
  have d: "drop (?i + 1) ?lines = body @ tail"
    by simp
  have tw: "takeWhile (\<lambda>l. \<not> isFence l) (body @ tail) = body"
    using body tail by (cases tail) (simp_all add: takeWhile_append2 [of body])
  have t: "titleLoop ?lines 0 = Inr (case head of [] \<Rightarrow> [] | t # _ \<Rightarrow> slideTitleOf t, length head)"
  proof (cases "head = []")
    case True
    show ?thesis
    proof (cases run)
      case Nil
      with True fl show ?thesis
        using titleLoop_fence [of 0 ?lines] by simp
    next
      case (Cons l run')
      with True run show ?thesis
        using titleLoop_bullet [of 0 ?lines] by simp
    qed
  next
    case False
    with head obtain t where "head = [t]" "match (trim t) titleRe False \<noteq> None" by blast
    then show ?thesis
      using titleLoop_title [of 0 ?lines] by simp
  qed
  have "contentLoop ?lines (length head) [] [] =
        contentLoop ?lines ?i ([] @ map bulletOf run) []"
    using run by (rule contentLoop_run)
  also have "\<dots> = contentLoop ?lines (?i + 1 + length body + 1) [] ?sc"
    using contentLoop_fence [OF li(1), of "map bulletOf run" "[]"] fl
    unfolding li(2) d tw by simp
  finally have c: "contentLoop ?lines (length head) [] [] =
        contentLoop ?lines (?i + 1 + length body + 1) [] ?sc" .
  obtain more cur' where m: "contentLoop ?lines (?i + 1 + length body + 1) [] ?sc = Inr (?sc @ more, cur')"
    using contentLoop_prefix by blast
  have e: "more = [] \<and> cur' = []" if "length tail \<le> 1"
  proof -
    from that have "length ?lines \<le> ?i + 1 + length body + 1" by simp
    from contentLoop_end [OF this, of "[]" ?sc] m show ?thesis by simp
  qed
  let ?s = "\<lparr>slide_title = (case head of [] \<Rightarrow> [] | t # _ \<Rightarrow> slideTitleOf t),
             content = flush cur' (?sc @ more)\<rparr>"
  have p: "parseSlideBlock (joinLines ?lines) = Inr ?s"
    using s t c m by (simp add: parseSlideBlock_def)
  obtain more' where f: "flush cur' (?sc @ more) = ?sc @ more'" "length tail \<le> 1 \<longrightarrow> more' = []"
    using e by (cases "cur' = []") (auto simp: flush_def)
  show ?thesis
    using p f by (intro exI [of _ ?s] exI [of _ more']) simp
qed

text \<open>
  C6: when the second loop is at a line whose trimmed form starts with the fence, the
  pending bullets are flushed and one code block is pushed: its code is the raw lines up to
  the next line whose trimmed form starts with the fence (or all remaining lines when there
  is none), joined by newlines; its language is the trimmed text after the opening fence, or
  \<open>text\<close> when that is empty. The loop goes on after the closing line and returns
  without an error; when no closing line exists it returns with this block as the last one.
  For a slide block, through \<open>parseSlideBlock\<close>: a block made of an optional title line,
  bullet lines, an opening fence line, lines that are no fence lines, and then either nothing
  or a closing fence line and more, gives a slide whose content is the bullet list (if any),
  this code block, and what the lines after the closing fence give; when the block ends with
  the code lines or with the closing fence, the code block is the last block of the slide.
\<close>

theorem C6_fenced_code:
  "(i < length lines \<and> isFence (lines ! i) \<longrightarrow>
     (let body = takeWhile (\<lambda>l. \<not> isFence l) (drop (i + 1) lines);
          lang = trim (drop 3 (trim (lines ! i)));
          block = CodeBlock (if lang = [] then js ''text'' else lang) (joinLines body)
      in contentLoop lines i cur sc =
           contentLoop lines (i + 1 + length body + 1) [] (flush cur sc @ [block]) \<and>
         (\<exists>r. contentLoop lines i cur sc = Inr r) \<and>
         ((\<forall>l\<in>set (drop (i + 1) lines). \<not> isFence l) \<longrightarrow>
            body = drop (i + 1) lines \<and>
            contentLoop lines i cur sc = Inr (flush cur sc @ [block], [])))) \<and>
   ((head = [] \<or> (\<exists>t. head = [t] \<and> match (trim t) titleRe False \<noteq> None)) \<and>
    (\<forall>l\<in>set run. match l bulletRe False \<noteq> None) \<and> isFence fl \<and>
    (\<forall>l\<in>set body. \<not> isFence l) \<and> (tail = [] \<or> isFence (hd tail)) \<and>
    (\<forall>l\<in>set (head @ run @ fl # body @ tail). newline \<notin> set l) \<longrightarrow>
      (\<exists>s more. parseSlideBlock (joinLines (head @ run @ fl # body @ tail)) = Inr s \<and>
         slide_title s = (case head of [] \<Rightarrow> [] | t # _ \<Rightarrow> slideTitleOf t) \<and>
         content s =
           flush (map bulletOf run) [] @
           CodeBlock (if trim (drop 3 (trim fl)) = [] then js ''text'' else trim (drop 3 (trim fl)))
             (joinLines body) # more \<and>
         (length tail \<le> 1 \<longrightarrow> more = [])))"
proof (intro conjI impI)
  assume "i < length lines \<and> isFence (lines ! i)"
  then have i: "i < length lines" and f: "isFence (lines ! i)" by simp_all
  let ?body = "takeWhile (\<lambda>l. \<not> isFence l) (drop (i + 1) lines)"
  note step = contentLoop_fence [OF i f, of cur sc]
  have "?body = drop (i + 1) lines \<and>
        contentLoop lines (i + 1 + length ?body + 1) [] x = Inr (x, [])"
    if "\<forall>l\<in>set (drop (i + 1) lines). \<not> isFence l" for x
  proof -
    from that have b: "?body = drop (i + 1) lines" by (simp add: takeWhile_eq_all_conv)
    have "length lines \<le> i + 1 + length ?body + 1"
      unfolding b using i by simp
    then show ?thesis using b contentLoop_end by blast
  qed
  then show "let body = takeWhile (\<lambda>l. \<not> isFence l) (drop (i + 1) lines);
          lang = trim (drop 3 (trim (lines ! i)));
          block = CodeBlock (if lang = [] then js ''text'' else lang) (joinLines body)
      in contentLoop lines i cur sc =
           contentLoop lines (i + 1 + length body + 1) [] (flush cur sc @ [block]) \<and>
         (\<exists>r. contentLoop lines i cur sc = Inr r) \<and>
         ((\<forall>l\<in>set (drop (i + 1) lines). \<not> isFence l) \<longrightarrow>
            body = drop (i + 1) lines \<and>
            contentLoop lines i cur sc = Inr (flush cur sc @ [block], []))"
    unfolding Let_def using step contentLoop_returns [of lines i cur sc] by simp
next
  assume a: "(head = [] \<or> (\<exists>t. head = [t] \<and> match (trim t) titleRe False \<noteq> None)) \<and>
    (\<forall>l\<in>set run. match l bulletRe False \<noteq> None) \<and> isFence fl \<and>
    (\<forall>l\<in>set body. \<not> isFence l) \<and> (tail = [] \<or> isFence (hd tail)) \<and>
    (\<forall>l\<in>set (head @ run @ fl # body @ tail). newline \<notin> set l)"
  show "\<exists>s more. parseSlideBlock (joinLines (head @ run @ fl # body @ tail)) = Inr s \<and>
         slide_title s = (case head of [] \<Rightarrow> [] | t # _ \<Rightarrow> slideTitleOf t) \<and>
         content s =
           flush (map bulletOf run) [] @
           CodeBlock (if trim (drop 3 (trim fl)) = [] then js ''text'' else trim (drop 3 (trim fl)))
             (joinLines body) # more \<and>
         (length tail \<le> 1 \<longrightarrow> more = [])"
    by (rule parseSlideBlock_fenced) (use a in blast)+
qed

theorem C6_fenced_code_witness:
  "contentLoop [js ''```py'', js ''x'', js '' y''] 0 [] [] =
     Inr ([CodeBlock (js ''py'') (js ''x\<newline> y'')], []) \<and>
   parseSlideBlock (js ''```py\<newline>x\<newline> y'') =
     Inr \<lparr>slide_title = [], content = [CodeBlock (js ''py'') (js ''x\<newline> y'')]\<rparr> \<and>
   (\<exists>s more. parseSlideBlock (js ''# C\<newline>- a\<newline>```\<newline>x\<newline>\<newline>```\<newline>z'') = Inr s \<and>
      slide_title s = js ''C'' \<and>
      content s = BulletList [BulletItem (js ''a'') 0] # CodeBlock (js ''text'') (js ''x\<newline>'') # more)"
proof -
  let ?lines = "[js ''```py'', js ''x'', js '' y'']"
  have f: "isFence (js ''```py'')" "\<not> isFence (js ''x'')" "\<not> isFence (js '' y'')"
    "isFence (js ''```'')" "\<not> isFence (js '''')"
    by code_simp+
  have l: "trim (drop 3 (trim (js ''```py''))) = js ''py''" "js ''py'' \<noteq> []"
    "joinLines [js ''x'', js '' y''] = js ''x\<newline> y''"
    "trim (drop 3 (trim (js ''```''))) = []"
    "joinLines [js ''x'', js ''''] = js ''x\<newline>''"
    by code_simp+
  have n: "newline \<notin> set (js ''```py'')" "newline \<notin> set (js ''x'')" "newline \<notin> set (js '' y'')"
    "newline \<notin> set (js ''# C'')" "newline \<notin> set (js ''- a'')" "newline \<notin> set (js ''```'')"
    "newline \<notin> set (js '''')" "newline \<notin> set (js ''z'')"
    by code_simp+
  have j: "joinLines ([] @ [] @ js ''```py'' # [js ''x'', js '' y''] @ []) = js ''```py\<newline>x\<newline> y''"
    "joinLines ([js ''# C''] @ [js ''- a''] @ js ''```'' # [js ''x'', js ''''] @ [js ''```'', js ''z'']) =
       js ''# C\<newline>- a\<newline>```\<newline>x\<newline>\<newline>```\<newline>z''"
    by code_simp+
  have t: "match (trim (js ''# C'')) titleRe False \<noteq> None" "slideTitleOf (js ''# C'') = js ''C''"
    "match (js ''- a'') bulletRe False \<noteq> None" "bulletOf (js ''- a'') = BulletItem (js ''a'') 0"
    by code_simp+
  have 1: "contentLoop ?lines 0 [] [] = Inr ([CodeBlock (js ''py'') (js ''x\<newline> y'')], [])"
    using C6_fenced_code [of 0 ?lines "[]" "[]"] f l
    by (simp add: Let_def flush_def contentLoop_end)
  from C6_fenced_code [of 0 ?lines "[]" "[]" "[]" "[]" "js ''```py''" "[js ''x'', js '' y'']" "[]"] f n
  have "\<exists>s more. parseSlideBlock (joinLines ([] @ [] @ js ''```py'' # [js ''x'', js '' y''] @ [])) = Inr s \<and>
         slide_title s = [] \<and>
         content s = flush (map bulletOf []) [] @
           CodeBlock (if trim (drop 3 (trim (js ''```py''))) = [] then js ''text''
                      else trim (drop 3 (trim (js ''```py''))))
             (joinLines [js ''x'', js '' y'']) # more \<and> more = []"
    by simp
  then have 2: "parseSlideBlock (js ''```py\<newline>x\<newline> y'') =
     Inr \<lparr>slide_title = [], content = [CodeBlock (js ''py'') (js ''x\<newline> y'')]\<rparr>"
    unfolding j l by (auto simp: flush_def l)
  from C6_fenced_code [of 0 ?lines "[]" "[]" "[js ''# C'']" "[js ''- a'']" "js ''```''" "[js ''x'', js '''']"
      "[js ''```'', js ''z'']"] f n t
  have "\<exists>s more. parseSlideBlock (joinLines ([js ''# C''] @ [js ''- a''] @ js ''```'' # [js ''x'', js ''''] @ [js ''```'', js ''z''])) = Inr s \<and>
         slide_title s = slideTitleOf (js ''# C'') \<and>
         content s = flush (map bulletOf [js ''- a'']) [] @
           CodeBlock (if trim (drop 3 (trim (js ''```''))) = [] then js ''text''
                      else trim (drop 3 (trim (js ''```''))))
             (joinLines [js ''x'', js '''']) # more"
    by (simp del: joinLines.simps)
  then have 3: "\<exists>s more. parseSlideBlock (js ''# C\<newline>- a\<newline>```\<newline>x\<newline>\<newline>```\<newline>z'') = Inr s \<and>
      slide_title s = js ''C'' \<and>
      content s = BulletList [BulletItem (js ''a'') 0] # CodeBlock (js ''text'') (js ''x\<newline>'') # more"
    unfolding j l t by (simp add: flush_def t)
  show ?thesis using 1 2 3 by blast
qed

section \<open>Bullet levels\<close>

lemma trim_empty [simp]: "trim [] = []"
  by (simp add: trim_def)













lemma trim_trimStart: "trim (trimStart f) = trim f"
  by (simp add: trim_def trimStart_def)











section \<open>Two inputs of the specification\<close>

text \<open>
  C9: the empty input gives a document with no slides; its title and subtitle keep the
  empty string they are initialised with.
\<close>

theorem C9_empty_input:
  "parseOutline (js '''') =
     Inr \<lparr>title = [], subtitle = [], theme = js ''minimal'', timing_default = 5, slides = []\<rparr>"
  by code_simp

text \<open>
  C2: the outline \<^verbatim>\<open>"# T\n\n---\n\n# S\n- a\n  - b\n- c"\<close> gives the title \<open>T\<close>, no
  subtitle, and one slide titled \<open>S\<close> whose content is one bullet list with the items
  \<open>a\<close> (level 0), \<open>b\<close> (level 1), \<open>c\<close> (level 0).
\<close>

theorem C2_example_outline:
  "parseOutline (js ''# T\<newline>\<newline>---\<newline>\<newline># S\<newline>- a\<newline>  - b\<newline>- c'') =
     Inr \<lparr>title = js ''T'', subtitle = [], theme = js ''minimal'', timing_default = 5,
          slides =
            [\<lparr>slide_title = js ''S'',
               content =
                 [BulletList
                    [BulletItem (js ''a'') 0, BulletItem (js ''b'') 1, BulletItem (js ''c'') 0]]\<rparr>]\<rparr>"
  by code_simp

end
